theory Spec2Isabelle
  imports Main "HOL-Library.Word"
begin

section \<open>Data model of CLexicon.c\<close>

text \<open>
  A \<open>LexNode\<close> of the source holds the flag \<open>is_word\<close> and the array
  \<open>children[ALPHA_SIZE]\<close> of node pointers. A pointer to a node is an optional node
  (\<open>None\<close> is \<open>NULL\<close>); every node has one owner, so the tree is a value. The array is a
  list, and \<open>wf_slot\<close> below says that it has \<open>ALPHA_SIZE\<close> slots, which the C type
  guarantees.
\<close>

datatype LexNode = LexNode (is_word: bool) (children: "LexNode option list")

text \<open>
  \<open>struct CLexiconImplementation\<close>. The counter is a C \<open>int\<close>, which is 32 bits wide
  on the build of the \<open>Makefile\<close>: a 32-bit word whose \<open>++\<close> and \<open>--\<close> wrap around, read
  as a signed number by \<open>sint\<close>.
\<close>

record CLexicon =
  root :: "LexNode option"
  wordcount :: "32 word"

text \<open>
  The source has no error values: where it dereferences \<open>NULL\<close>, indexes the child array
  outside \<open>0..25\<close> or reads before the start of the word buffer, the behaviour of the C
  program is undefined. The model returns these as errors.
\<close>

datatype error = NullDeref | BadIndex | BadRead

abbreviation ALPHA_SIZE :: nat where
  "ALPHA_SIZE \<equiv> 26"

section \<open>Local helper functions\<close>

definition create_node :: LexNode where
  "create_node = LexNode False (replicate ALPHA_SIZE None)"

text \<open>
  \<open>delete_node_helper(lex, nodeptr)\<close>: frees the subtree in the slot, children first, and
  decrements \<open>lex->wordcount\<close> once for every freed node that is a word. The function
  returns the new counter; the slot itself becomes \<open>NULL\<close>, which the callers below write.
\<close>

fun delete_node_helper :: "LexNode option \<Rightarrow> 32 word \<Rightarrow> 32 word" where
  "delete_node_helper None wc = wc"
| "delete_node_helper (Some (LexNode w cs)) wc =
     (let wc' = fold delete_node_helper cs wc in if w then wc' - 1 else wc')"

text \<open>
  \<open>delete_node(lex, node)\<close>: frees the children subtrees through the helper and then the
  node; the node's own flag does not touch the counter.
\<close>

fun delete_node :: "LexNode option \<Rightarrow> 32 word \<Rightarrow> 32 word" where
  "delete_node None wc = wc"
| "delete_node (Some n) wc = fold delete_node_helper (children n) wc"

fun branch_contains_words :: "LexNode option \<Rightarrow> bool" where
  "branch_contains_words None = False"
| "branch_contains_words (Some (LexNode w cs)) = (list_ex branch_contains_words cs \<or> w)"

text \<open>
  \<open>scrub_empty_branches(lex, nodeptr)\<close> returns the new content of the slot and the new
  counter; \<open>scrub_children\<close> is its loop over the child array.
\<close>

fun scrub_empty_branches :: "LexNode option \<Rightarrow> 32 word \<Rightarrow> LexNode option \<times> 32 word"
  and scrub_children ::
    "LexNode option list \<Rightarrow> 32 word \<Rightarrow> LexNode option list \<times> 32 word" where
  "scrub_empty_branches None wc = (None, wc)"
| "scrub_empty_branches (Some (LexNode w cs)) wc =
     (if w \<or> branch_contains_words (Some (LexNode w cs))
      then (case scrub_children cs wc of (cs', wc') \<Rightarrow> (Some (LexNode w cs'), wc'))
      else (None, delete_node (Some (LexNode w cs)) wc))"
| "scrub_children [] wc = ([], wc)"
| "scrub_children (c # cs) wc =
     (case scrub_empty_branches c wc of (c', wc1) \<Rightarrow>
        (case scrub_children cs wc1 of (cs', wc2) \<Rightarrow> (c' # cs', wc2)))"

text \<open>
  A word is the sequence of characters before the terminating \<open>NUL\<close> of the C string,
  so its length is \<open>strlen\<close>. \<open>tolower\<close> is that of the C locale, and \<open>to_lower_case\<close>
  folds a whole word.
\<close>

definition tolower :: "char \<Rightarrow> char" where
  "tolower c =
     (let n = (of_char c :: nat) in if 65 \<le> n \<and> n \<le> 90 then char_of (n + 32) else c)"

definition to_lower_case :: "string \<Rightarrow> string" where
  "to_lower_case word = map tolower word"

text \<open>
  The index \<open>ith - 'a'\<close> into the child array: \<open>None\<close> when it falls outside the array.
\<close>

definition child_index :: "char \<Rightarrow> nat option" where
  "child_index ith =
     (let k = int (of_char ith :: nat) - 97 in
      if 0 \<le> k \<and> k < int ALPHA_SIZE then Some (nat k) else None)"

text \<open>
  The loop of \<open>clex_simple_add\<close> below a node that exists: it returns the node with the
  path of the remaining letters created and the last node marked.
\<close>

fun add_path :: "LexNode \<Rightarrow> string \<Rightarrow> error + LexNode" where
  "add_path n [] = Inr (LexNode True (children n))"
| "add_path n (ith # rest) =
     (case child_index ith of
        None \<Rightarrow> Inl BadIndex
      | Some i \<Rightarrow>
          (let next_node = (case children n ! i of None \<Rightarrow> create_node | Some m \<Rightarrow> m) in
           case add_path next_node rest of
             Inl e \<Rightarrow> Inl e
           | Inr m' \<Rightarrow> Inr (LexNode (is_word n) ((children n)[i := Some m']))))"

definition clex_simple_add :: "CLexicon \<Rightarrow> string \<Rightarrow> error + CLexicon" where
  "clex_simple_add lx word_lower =
     (case root lx of
        None \<Rightarrow> Inl NullDeref
      | Some r \<Rightarrow>
          (case add_path r word_lower of
             Inl e \<Rightarrow> Inl e
           | Inr r' \<Rightarrow> Inr \<lparr>root = Some r', wordcount = wordcount lx + 1\<rparr>))"

text \<open>
  The traversal of \<open>clex_contains_helper\<close> on the folded word: the first equation is both
  \<open>NULL\<close> checks of the source, the one inside the loop and the one after it.
\<close>

fun contains_walk :: "LexNode option \<Rightarrow> string \<Rightarrow> bool \<Rightarrow> error + bool" where
  "contains_walk None word isPrefix = Inr False"
| "contains_walk (Some n) [] isPrefix = Inr (isPrefix \<or> is_word n)"
| "contains_walk (Some n) (ith # rest) isPrefix =
     (case child_index ith of
        None \<Rightarrow> Inl BadIndex
      | Some i \<Rightarrow> contains_walk (children n ! i) rest isPrefix)"

definition clex_contains_helper :: "CLexicon \<Rightarrow> string \<Rightarrow> bool \<Rightarrow> error + bool" where
  "clex_contains_helper lx word isPrefix =
     contains_walk (root lx) (to_lower_case word) isPrefix"

section \<open>Client functions\<close>

definition clex_create :: CLexicon where
  "clex_create = \<lparr>root = Some create_node, wordcount = 0\<rparr>"

definition clex_add :: "CLexicon \<Rightarrow> string \<Rightarrow> error + CLexicon" where
  "clex_add lx word = clex_simple_add lx (to_lower_case word)"

definition clex_clear :: "CLexicon \<Rightarrow> CLexicon" where
  "clex_clear lx =
     (let wc = delete_node (root lx) (wordcount lx) in
      \<lparr>root = Some create_node, wordcount = 0\<rparr>)"

definition clex_contains :: "CLexicon \<Rightarrow> string \<Rightarrow> error + bool" where
  "clex_contains lx word = clex_contains_helper lx word False"

definition clex_contains_prefix :: "CLexicon \<Rightarrow> string \<Rightarrow> error + bool" where
  "clex_contains_prefix lx prefix = clex_contains_helper lx prefix True"

definition clex_isEmpty :: "CLexicon \<Rightarrow> bool" where
  "clex_isEmpty lx = (wordcount lx = 0)"

definition clex_wordcount :: "CLexicon \<Rightarrow> int" where
  "clex_wordcount lx = sint (wordcount lx)"

text \<open>
  The descent of \<open>clex_remove\<close> through the slot \<open>curr_node\<close>. The result \<open>None\<close> is the
  source's \<open>return false\<close> (nothing was written); \<open>Some (slot, freed)\<close> is the new content
  of the slot after the word node lost its flag, with \<open>freed\<close> telling whether the word
  node had no children and was freed, in which case the source goes on to scrub the tree.
  The loop runs over all letters but the last and checks the slot before every step; the
  last letter is read after the loop with no check of the slot, and for an empty word the
  letter read is \<open>word_lower[-1]\<close>.
\<close>

fun remove_walk :: "LexNode option \<Rightarrow> string \<Rightarrow> error + (LexNode option \<times> bool) option" where
  "remove_walk curr_node [] = Inl BadRead"
| "remove_walk curr_node [last_ch] =
     (case curr_node of
        None \<Rightarrow> Inl NullDeref
      | Some n \<Rightarrow>
          (case child_index last_ch of
             None \<Rightarrow> Inl BadIndex
           | Some i \<Rightarrow>
               (case children n ! i of
                  None \<Rightarrow> Inr None
                | Some word_node \<Rightarrow>
                    if list_ex (\<lambda>c. c \<noteq> None) (children word_node)
                    then Inr (Some (Some (LexNode (is_word n)
                            ((children n)[i := Some (LexNode False (children word_node))])), False))
                    else Inr (Some (Some (LexNode (is_word n) ((children n)[i := None])), True)))))"
| "remove_walk curr_node (ith # rest) =
     (case curr_node of
        None \<Rightarrow> Inr None
      | Some n \<Rightarrow>
          (case child_index ith of
             None \<Rightarrow> Inl BadIndex
           | Some i \<Rightarrow>
               (case remove_walk (children n ! i) rest of
                  Inl e \<Rightarrow> Inl e
                | Inr None \<Rightarrow> Inr None
                | Inr (Some (slot, freed)) \<Rightarrow>
                    Inr (Some (Some (LexNode (is_word n) ((children n)[i := slot])), freed)))))"

definition clex_remove :: "CLexicon \<Rightarrow> string \<Rightarrow> error + (bool \<times> CLexicon)" where
  "clex_remove lx word =
     (case remove_walk (root lx) (to_lower_case word) of
        Inl e \<Rightarrow> Inl e
      | Inr None \<Rightarrow> Inr (False, lx)
      | Inr (Some (r, freed)) \<Rightarrow>
          (let wc = wordcount lx - 1 in
           if freed
           then (case scrub_empty_branches r wc of
                   (r', wc') \<Rightarrow> Inr (True, \<lparr>root = r', wordcount = wc'\<rparr>))
           else Inr (True, \<lparr>root = r, wordcount = wc\<rparr>)))"

text \<open>
  The descent of \<open>clex_remove_prefix\<close>: \<open>None\<close> is \<open>return false\<close>, \<open>Some (slot, wc)\<close> the
  new content of the slot and the counter after the prefix node and its subtree are gone.
\<close>

fun remove_prefix_walk ::
  "LexNode option \<Rightarrow> string \<Rightarrow> 32 word \<Rightarrow> error + (LexNode option \<times> 32 word) option" where
  "remove_prefix_walk None prefix wc = Inr None"
| "remove_prefix_walk (Some n) [] wc = Inr (Some (None, delete_node_helper (Some n) wc))"
| "remove_prefix_walk (Some n) (ith # rest) wc =
     (case child_index ith of
        None \<Rightarrow> Inl BadIndex
      | Some i \<Rightarrow>
          (case remove_prefix_walk (children n ! i) rest wc of
             Inl e \<Rightarrow> Inl e
           | Inr None \<Rightarrow> Inr None
           | Inr (Some (slot, wc')) \<Rightarrow>
               Inr (Some (Some (LexNode (is_word n) ((children n)[i := slot])), wc'))))"

definition clex_remove_prefix :: "CLexicon \<Rightarrow> string \<Rightarrow> error + (bool \<times> CLexicon)" where
  "clex_remove_prefix lx prefix =
     (case remove_prefix_walk (root lx) (to_lower_case prefix) (wordcount lx) of
        Inl e \<Rightarrow> Inl e
      | Inr None \<Rightarrow> Inr (False, lx)
      | Inr (Some (r, wc)) \<Rightarrow> Inr (True, \<lparr>root = r, wordcount = wc\<rparr>))"

section \<open>Sequences of client calls\<close>

text \<open>
  A client such as \<open>lextest.c\<close> calls the mutating functions one after the other on one
  lexicon. \<open>run\<close> performs such a sequence and stops at the first call whose behaviour is
  undefined; the boolean results of the removals are dropped.
\<close>

datatype op = Add string | Remove string | RemovePrefix string | Clear

fun apply_op :: "CLexicon \<Rightarrow> op \<Rightarrow> error + CLexicon" where
  "apply_op lx (Add w) = clex_add lx w"
| "apply_op lx (Remove w) =
     (case clex_remove lx w of Inl e \<Rightarrow> Inl e | Inr (removed, lx') \<Rightarrow> Inr lx')"
| "apply_op lx (RemovePrefix p) =
     (case clex_remove_prefix lx p of Inl e \<Rightarrow> Inl e | Inr (removed, lx') \<Rightarrow> Inr lx')"
| "apply_op lx Clear = Inr (clex_clear lx)"

fun run :: "CLexicon \<Rightarrow> op list \<Rightarrow> error + CLexicon" where
  "run lx [] = Inr lx"
| "run lx (x # xs) = (case apply_op lx x of Inl e \<Rightarrow> Inl e | Inr lx' \<Rightarrow> run lx' xs)"

text \<open>
  The lexicon that a sequence of calls on a new lexicon ends in, when every call returns.
\<close>

definition state_after :: "op list \<Rightarrow> CLexicon" where
  "state_after ops = (case run clex_create ops of Inl e \<Rightarrow> clex_create | Inr lx \<Rightarrow> lx)"

section \<open>Predicates of the specification\<close>

text \<open>Every node below a slot has the \<open>ALPHA_SIZE\<close> child slots of the C struct.\<close>

fun wf_slot :: "LexNode option \<Rightarrow> bool" where
  "wf_slot None = True"
| "wf_slot (Some (LexNode w cs)) = (length cs = ALPHA_SIZE \<and> list_all wf_slot cs)"

definition wf_lex :: "CLexicon \<Rightarrow> bool" where
  "wf_lex lx = wf_slot (root lx)"

definition is_lower :: "char \<Rightarrow> bool" where
  "is_lower c = (97 \<le> (of_char c :: nat) \<and> (of_char c :: nat) \<le> 122)"

definition is_upper :: "char \<Rightarrow> bool" where
  "is_upper c = (65 \<le> (of_char c :: nat) \<and> (of_char c :: nat) \<le> 90)"

definition is_letter :: "char \<Rightarrow> bool" where
  "is_letter c = (is_lower c \<or> is_upper c)"

definition lowercase :: "string \<Rightarrow> bool" where
  "lowercase w = list_all is_lower w"

definition letters :: "string \<Rightarrow> bool" where
  "letters w = list_all is_letter w"

definition starts_with :: "string \<Rightarrow> string \<Rightarrow> bool" where
  "starts_with p w = (take (length p) w = p)"

text \<open>The number of nodes below a slot whose \<open>is_word\<close> flag is set.\<close>

fun count_words :: "LexNode option \<Rightarrow> nat" where
  "count_words None = 0"
| "count_words (Some (LexNode w cs)) = (if w then 1 else 0) + sum_list (map count_words cs)"

text \<open>
  Invariant I1 below a slot: no node there has \<open>is_word = false\<close> and all child slots
  absent. The root is the one node that the data model of the specification keeps also
  in a set without words, so \<open>I1\<close> reads the invariant for every node below the root and
  not for the root itself.
\<close>

fun no_dangling :: "LexNode option \<Rightarrow> bool" where
  "no_dangling None = True"
| "no_dangling (Some (LexNode w cs)) =
     ((w \<or> list_ex (\<lambda>c. c \<noteq> None) cs) \<and> list_all no_dangling cs)"

definition I1 :: "CLexicon \<Rightarrow> bool" where
  "I1 lx =
     (case root lx of None \<Rightarrow> True | Some r \<Rightarrow> list_all no_dangling (children r))"

text \<open>The root's own flag is clear: the empty string is not stored.\<close>

definition root_flag_clear :: "CLexicon \<Rightarrow> bool" where
  "root_flag_clear lx = (case root lx of None \<Rightarrow> True | Some r \<Rightarrow> \<not> is_word r)"

section \<open>Basic facts about the model\<close>

subsection \<open>Characters and indices\<close>

lemma child_index_less: "child_index c = Some i \<Longrightarrow> i < ALPHA_SIZE"
  by (auto simp: child_index_def Let_def split: if_splits)

lemma child_index_lower: "is_lower c \<Longrightarrow> \<exists>i. child_index c = Some i"
  by (auto simp: child_index_def is_lower_def Let_def)

lemma child_index_Some_iff: "(\<exists>i. child_index c = Some i) \<longleftrightarrow> is_lower c"
  by (auto simp: child_index_def is_lower_def Let_def)

lemma tolower_lower: "is_lower c \<Longrightarrow> tolower c = c"
  by (simp add: tolower_def is_lower_def Let_def)

lemma tolower_letter: "is_letter c \<Longrightarrow> is_lower (tolower c)"
  by (auto simp: tolower_def is_lower_def is_letter_def is_upper_def Let_def)

lemma to_lower_case_lowercase: "lowercase w \<Longrightarrow> to_lower_case w = w"
  by (induction w) (simp_all add: to_lower_case_def lowercase_def tolower_lower)

lemma to_lower_case_letters: "letters w \<Longrightarrow> lowercase (to_lower_case w)"
  by (induction w) (simp_all add: to_lower_case_def lowercase_def letters_def tolower_letter)

lemma child_index_inj: "child_index c = Some i \<Longrightarrow> child_index d = Some i \<Longrightarrow> c = d"
proof -
  assume a: "child_index c = Some i" "child_index d = Some i"
  then have "97 \<le> (of_char c :: nat)" "97 \<le> (of_char d :: nat)"
    "nat (int (of_char c) - 97) = i" "nat (int (of_char d) - 97) = i"
    by (auto simp: child_index_def Let_def split: if_splits)
  then have "(of_char c :: nat) = of_char d"
    by linarith
  then show "c = d" by simp
qed

subsection \<open>The counter\<close>

lemma sint_of_int_range:
  "- (2 ^ 31) \<le> k \<Longrightarrow> k < 2 ^ 31 \<Longrightarrow> sint (word_of_int k :: 32 word) = k"
  by (simp add: sint_sbintrunc' signed_take_bit_int_eq_self)

lemma sint_of_nat_small: "n < 2 ^ 31 \<Longrightarrow> sint (of_nat n :: 32 word) = int n"
  using sint_of_int_range [of "int n"] by simp

lemma of_nat_of_sint: "sint (w :: 32 word) = int n \<Longrightarrow> w = of_nat n"
proof -
  assume "sint w = int n"
  then have "word_of_int (sint w) = (word_of_int (int n) :: 32 word)" by simp
  then show ?thesis by simp
qed

lemma sint_sub_of_nat:
  assumes "- (2 ^ 31) \<le> sint (w :: 32 word) - int n"
  shows "sint (w - of_nat n) = sint w - int n"
proof -
  have eq: "w - of_nat n = (word_of_int (sint w - int n) :: 32 word)"
    by simp
  have "sint w < 2 ^ 31" using sint_lt [of w] by simp
  then have "sint w - int n < 2 ^ 31" by linarith
  with assms show ?thesis
    unfolding eq by (rule sint_of_int_range)
qed

subsection \<open>Well-formed nodes\<close>

lemma wf_slot_create_node: "wf_slot (Some create_node)"
  by (simp add: create_node_def list_all_iff)

lemma wf_slot_SomeD: "wf_slot (Some n) \<Longrightarrow> length (children n) = ALPHA_SIZE"
  by (cases n) simp

lemma wf_slot_child: "wf_slot (Some n) \<Longrightarrow> i < ALPHA_SIZE \<Longrightarrow> wf_slot (children n ! i)"
  by (cases n) (simp add: list_all_length)

lemma wf_slot_update:
  "wf_slot (Some n) \<Longrightarrow> wf_slot c \<Longrightarrow> wf_slot (Some (LexNode w ((children n)[i := c])))"
  by (cases n) (auto simp: list_all_iff dest: set_update_subset_insert [THEN subsetD])

lemma wf_add_path: "wf_slot (Some n) \<Longrightarrow> add_path n w = Inr n' \<Longrightarrow> wf_slot (Some n')"
proof (induction w arbitrary: n n')
  case Nil
  then show ?case by (cases n) auto
next
  case (Cons c w)
  from Cons.prems(2) obtain i m' where i: "child_index c = Some i"
    and rec: "add_path (case children n ! i of None \<Rightarrow> create_node | Some m \<Rightarrow> m) w = Inr m'"
    and n': "n' = LexNode (is_word n) ((children n)[i := Some m'])"
    by (auto simp: Let_def split: option.splits sum.splits)
  have "wf_slot (Some (case children n ! i of None \<Rightarrow> create_node | Some m \<Rightarrow> m))"
    using wf_slot_child [OF Cons.prems(1) child_index_less [OF i]]
    by (auto simp: wf_slot_create_node split: option.splits)
  from Cons.IH [OF this rec] show ?case
    unfolding n' using Cons.prems(1) by (rule wf_slot_update [rotated])
qed

subsection \<open>Insertion\<close>

lemma add_path_lowercase: "lowercase w \<Longrightarrow> \<exists>n'. add_path n w = Inr n'"
proof (induction w arbitrary: n)
  case Nil
  then show ?case by simp
next
  case (Cons c w)
  then have "is_lower c" and w: "lowercase w"
    by (simp_all add: lowercase_def)
  then obtain i where i: "child_index c = Some i"
    using child_index_lower by blast
  from Cons.IH [OF w] obtain m' where
    "add_path (case children n ! i of None \<Rightarrow> create_node | Some m \<Rightarrow> m) w = Inr m'"
    by blast
  with i show ?case by (simp add: Let_def)
qed

lemma add_path_ConsD:
  assumes "add_path n (c # w) = Inr n'"
  obtains i m' where "child_index c = Some i"
    and "add_path (case children n ! i of None \<Rightarrow> create_node | Some m \<Rightarrow> m) w = Inr m'"
    and "n' = LexNode (is_word n) ((children n)[i := Some m'])"
  using assms by (auto simp: Let_def split: option.splits sum.splits)

lemma contains_walk_add_path_same:
  "wf_slot (Some n) \<Longrightarrow> add_path n w = Inr n' \<Longrightarrow> contains_walk (Some n') w b = Inr True"
proof (induction w arbitrary: n n')
  case Nil
  then show ?case by auto
next
  case (Cons c w)
  from Cons.prems(2) obtain i m' where i: "child_index c = Some i"
    and rec: "add_path (case children n ! i of None \<Rightarrow> create_node | Some m \<Rightarrow> m) w = Inr m'"
    and n': "n' = LexNode (is_word n) ((children n)[i := Some m'])"
    by (rule add_path_ConsD)
  have len: "i < length (children n)"
    using wf_slot_SomeD [OF Cons.prems(1)] child_index_less [OF i] by simp
  have "wf_slot (Some (case children n ! i of None \<Rightarrow> create_node | Some m \<Rightarrow> m))"
    using wf_slot_child [OF Cons.prems(1) child_index_less [OF i]]
    by (auto simp: wf_slot_create_node split: option.splits)
  from Cons.IH [OF this rec] show ?case
    using i len by (simp add: n')
qed

lemma contains_walk_add_path_mono:
  "wf_slot (Some n) \<Longrightarrow> add_path n w = Inr n' \<Longrightarrow> contains_walk (Some n) v b = Inr True
   \<Longrightarrow> contains_walk (Some n') v b = Inr True"
proof (induction w arbitrary: n n' v)
  case Nil
  then show ?case by (cases v) (auto split: option.splits)
next
  case (Cons c w)
  from Cons.prems(2) obtain i m' where i: "child_index c = Some i"
    and rec: "add_path (case children n ! i of None \<Rightarrow> create_node | Some m \<Rightarrow> m) w = Inr m'"
    and n': "n' = LexNode (is_word n) ((children n)[i := Some m'])"
    by (rule add_path_ConsD)
  have len: "i < length (children n)"
    using wf_slot_SomeD [OF Cons.prems(1)] child_index_less [OF i] by simp
  show ?case
  proof (cases v)
    case Nil
    with Cons.prems(3) show ?thesis by (simp add: n')
  next
    case v: (Cons d v')
    from Cons.prems(3) v obtain j where j: "child_index d = Some j"
      and walk: "contains_walk (children n ! j) v' b = Inr True"
      by (auto split: option.splits)
    show ?thesis
    proof (cases "j = i")
      case False
      with j walk show ?thesis by (simp add: v n')
    next
      case True
      with walk obtain m where m: "children n ! i = Some m"
        by (cases "children n ! i") auto
      have "wf_slot (Some m)"
        using wf_slot_child [OF Cons.prems(1) child_index_less [OF i]] m by simp
      from Cons.IH [OF this _ walk [unfolded True m]] rec m
      have "contains_walk (Some m') v' b = Inr True" by simp
      with j True len show ?thesis by (simp add: v n')
    qed
  qed
qed

lemma clex_add_lowercase:
  assumes "wf_lex lx" "root lx \<noteq> None" "lowercase w"
  shows "\<exists>lx'. clex_add lx w = Inr lx' \<and> wf_lex lx' \<and> root lx' \<noteq> None
           \<and> wordcount lx' = wordcount lx + 1
           \<and> clex_contains lx' w = Inr True
           \<and> (\<forall>v. clex_contains lx v = Inr True \<longrightarrow> clex_contains lx' v = Inr True)"
proof -
  from assms(2) obtain r where r: "root lx = Some r" by auto
  from add_path_lowercase [OF assms(3)] obtain r' where r': "add_path r w = Inr r'" by blast
  have wf: "wf_slot (Some r)" using assms(1) r by (simp add: wf_lex_def)
  have low: "to_lower_case w = w" by (rule to_lower_case_lowercase [OF assms(3)])
  have "clex_add lx w = Inr \<lparr>root = Some r', wordcount = wordcount lx + 1\<rparr>"
    by (simp add: clex_add_def clex_simple_add_def r r' low)
  moreover have "wf_slot (Some r')" by (rule wf_add_path [OF wf r'])
  moreover have "contains_walk (Some r') w False = Inr True"
    by (rule contains_walk_add_path_same [OF wf r'])
  moreover have "contains_walk (Some r) (to_lower_case v) False = Inr True
      \<Longrightarrow> contains_walk (Some r') (to_lower_case v) False = Inr True" for v
    by (rule contains_walk_add_path_mono [OF wf r'])
  ultimately show ?thesis
    by (simp add: wf_lex_def clex_contains_def clex_contains_helper_def r low)
qed

lemma run_adds:
  assumes "wf_lex lx" "root lx \<noteq> None" "list_all lowercase ws"
  shows "\<exists>lx'. run lx (map Add ws) = Inr lx' \<and> wf_lex lx' \<and> root lx' \<noteq> None
           \<and> wordcount lx' = wordcount lx + of_nat (length ws)
           \<and> (\<forall>w\<in>set ws. clex_contains lx' w = Inr True)
           \<and> (\<forall>v. clex_contains lx v = Inr True \<longrightarrow> clex_contains lx' v = Inr True)"
  using assms
proof (induction ws arbitrary: lx)
  case Nil
  then show ?case by simp
next
  case (Cons w ws)
  then have w: "lowercase w" and ws: "list_all lowercase ws" by simp_all
  from clex_add_lowercase [OF Cons.prems(1,2) w] obtain lx1 where
    1: "clex_add lx w = Inr lx1" "wf_lex lx1" "root lx1 \<noteq> None"
       "wordcount lx1 = wordcount lx + 1" "clex_contains lx1 w = Inr True"
       "\<And>v. clex_contains lx v = Inr True \<Longrightarrow> clex_contains lx1 v = Inr True"
    by blast
  from Cons.IH [OF 1(2,3) ws] obtain lx' where
    2: "run lx1 (map Add ws) = Inr lx'" "wf_lex lx'" "root lx' \<noteq> None"
       "wordcount lx' = wordcount lx1 + of_nat (length ws)"
       "\<And>v. v \<in> set ws \<Longrightarrow> clex_contains lx' v = Inr True"
       "\<And>v. clex_contains lx1 v = Inr True \<Longrightarrow> clex_contains lx' v = Inr True"
    by blast
  have "run lx (map Add (w # ws)) = Inr lx'" using 1(1) 2(1) by simp
  moreover have "wordcount lx' = wordcount lx + of_nat (length (w # ws))"
    using 1(4) 2(4) by simp
  moreover have "\<forall>v\<in>set (w # ws). clex_contains lx' v = Inr True"
    using 1(5) 2(5,6) by auto
  moreover have "\<forall>v. clex_contains lx v = Inr True \<longrightarrow> clex_contains lx' v = Inr True"
    using 1(6) 2(6) by blast
  ultimately show ?case using 2(2,3) by blast
qed

lemma wf_lex_create: "wf_lex clex_create"
  by (simp add: wf_lex_def clex_create_def wf_slot_create_node)

subsection \<open>Indices stay inside the child array on words of letters\<close>

lemma contains_walk_total: "lowercase w \<Longrightarrow> \<exists>r. contains_walk c w b = Inr r"
proof (induction w arbitrary: c)
  case Nil
  then show ?case by (cases c) auto
next
  case (Cons a w)
  then obtain i where "child_index a = Some i" "lowercase w"
    using child_index_lower [of a] by (auto simp: lowercase_def)
  with Cons.IH show ?case by (cases c) auto
qed

lemma no_bad_index_contains:
  "letters w \<Longrightarrow> \<exists>r. clex_contains_helper lx w b = Inr r"
  unfolding clex_contains_helper_def
  by (rule contains_walk_total [OF to_lower_case_letters])

lemma remove_prefix_walk_total: "lowercase p \<Longrightarrow> \<exists>r. remove_prefix_walk c p wc = Inr r"
proof (induction p arbitrary: c)
  case Nil
  then show ?case by (cases c) auto
next
  case (Cons a p)
  then obtain i where i: "child_index a = Some i" and p: "lowercase p"
    using child_index_lower [of a] by (auto simp: lowercase_def)
  show ?case
  proof (cases c)
    case None
    then show ?thesis by simp
  next
    case (Some n)
    from Cons.IH [OF p] obtain r where "remove_prefix_walk (children n ! i) p wc = Inr r"
      by blast
    with i Some show ?thesis by (auto split: option.splits)
  qed
qed

lemma no_bad_index_remove_prefix:
  "letters p \<Longrightarrow> \<exists>b lx'. clex_remove_prefix lx p = Inr (b, lx')"
proof -
  assume "letters p"
  then obtain r where
    "remove_prefix_walk (root lx) (to_lower_case p) (wordcount lx) = Inr r"
    using remove_prefix_walk_total [OF to_lower_case_letters] by blast
  then show ?thesis
    by (auto simp: clex_remove_prefix_def split: option.splits)
qed

lemma no_bad_index_add:
  assumes "letters w"
  shows "clex_add lx w \<noteq> Inl BadIndex \<and> clex_add lx w \<noteq> Inl BadRead
         \<and> (root lx \<noteq> None \<longrightarrow> (\<exists>lx'. clex_add lx w = Inr lx'))"
proof (cases "root lx")
  case None
  then show ?thesis by (simp add: clex_add_def clex_simple_add_def)
next
  case (Some r)
  from add_path_lowercase [OF to_lower_case_letters [OF assms]]
  obtain r' where "add_path r (to_lower_case w) = Inr r'" by blast
  with Some show ?thesis by (simp add: clex_add_def clex_simple_add_def)
qed

lemma remove_walk_no_bad_index:
  "lowercase w \<Longrightarrow> w \<noteq> [] \<Longrightarrow> remove_walk c w \<noteq> Inl BadIndex \<and> remove_walk c w \<noteq> Inl BadRead"
proof (induction c w rule: remove_walk.induct)
  case (1 curr_node)
  then show ?case by simp
next
  case (2 curr_node last_ch)
  then obtain i where "child_index last_ch = Some i"
    using child_index_lower [of last_ch] by (auto simp: lowercase_def)
  then show ?case by (auto split: option.splits)
next
  case (3 curr_node ith v va)
  then obtain i where i: "child_index ith = Some i" and rest: "lowercase (v # va)"
    using child_index_lower [of ith] by (auto simp: lowercase_def)
  show ?case
  proof (cases curr_node)
    case None
    then show ?thesis by simp
  next
    case (Some n)
    from "3.IH" [OF Some i rest]
    have "remove_walk (children n ! i) (v # va) \<noteq> Inl BadIndex"
      "remove_walk (children n ! i) (v # va) \<noteq> Inl BadRead" by simp_all
    with Some i show ?thesis
      by (auto split: sum.splits option.splits)
  qed
qed

lemma no_bad_index_remove:
  assumes "letters w" "w \<noteq> []"
  shows "clex_remove lx w \<noteq> Inl BadIndex \<and> clex_remove lx w \<noteq> Inl BadRead"
proof -
  have "to_lower_case w \<noteq> []" using assms(2) by (simp add: to_lower_case_def)
  from remove_walk_no_bad_index [OF to_lower_case_letters [OF assms(1)] this, of "root lx"]
  show ?thesis
    by (auto simp: clex_remove_def Let_def split: sum.splits option.splits prod.splits)
qed

subsection \<open>Counting the flagged nodes\<close>

lemma fold_decrement:
  "(\<And>x wc. x \<in> set cs \<Longrightarrow> f x wc = (wc :: 32 word) - of_nat (g x))
   \<Longrightarrow> fold f cs wc = wc - of_nat (sum_list (map g cs))"
proof (induction cs arbitrary: wc)
  case Nil
  then show ?case by simp
next
  case (Cons a cs)
  have "fold f (a # cs) wc = fold f cs (f a wc)" by simp
  also have "\<dots> = f a wc - of_nat (sum_list (map g cs))"
    by (rule Cons.IH) (simp add: Cons.prems)
  also have "f a wc = wc - of_nat (g a)" by (simp add: Cons.prems)
  finally show ?case by simp
qed

lemma delete_node_helper_count: "delete_node_helper c wc = wc - of_nat (count_words c)"
proof (induction c wc rule: delete_node_helper.induct)
  case (1 wc)
  then show ?case by simp
next
  case (2 w cs wc)
  have "fold delete_node_helper cs wc = wc - of_nat (sum_list (map count_words cs))"
    by (rule fold_decrement) (rule "2.IH")
  then show ?case by simp
qed

text \<open>The words stored below a slot are as many as the flagged nodes.\<close>

lemma contains_walk_True_Cons:
  "contains_walk c (a # s) b = Inr True \<longleftrightarrow>
     (\<exists>n i. c = Some n \<and> child_index a = Some i \<and> contains_walk (children n ! i) s b = Inr True)"
  by (cases c) (auto split: option.splits)

lemma words_below_split:
  "{s. contains_walk (Some (LexNode w cs)) s False = Inr True} =
     (if w then {[]} else {}) \<union>
     (\<Union>i\<in>{..<ALPHA_SIZE}. (#) (char_of (97 + i)) ` {s. contains_walk (cs ! i) s False = Inr True})"
  (is "?L = ?A \<union> ?B")
proof (rule set_eqI)
  fix s
  show "s \<in> ?L \<longleftrightarrow> s \<in> ?A \<union> ?B"
  proof (cases s)
    case Nil
    then show ?thesis by auto
  next
    case (Cons a s')
    have "s \<in> ?L \<longleftrightarrow> (\<exists>i. child_index a = Some i \<and> contains_walk (cs ! i) s' False = Inr True)"
      by (auto simp: Cons split: option.splits)
    also have "\<dots> \<longleftrightarrow> (\<exists>i<ALPHA_SIZE. a = char_of (97 + i) \<and> contains_walk (cs ! i) s' False = Inr True)"
    proof (intro iffI; elim exE conjE)
      fix i
      assume i: "child_index a = Some i" and walk: "contains_walk (cs ! i) s' False = Inr True"
      from i have "i < ALPHA_SIZE" by (rule child_index_less)
      moreover from i have "(of_char a :: nat) = 97 + i"
        by (auto simp: child_index_def Let_def split: if_splits)
      then have "a = char_of (97 + i)" by (metis char_of_char)
      ultimately show "\<exists>i<ALPHA_SIZE. a = char_of (97 + i) \<and> contains_walk (cs ! i) s' False = Inr True"
        using walk by blast
    next
      fix i
      assume i: "i < ALPHA_SIZE" and a: "a = char_of (97 + i)"
        and walk: "contains_walk (cs ! i) s' False = Inr True"
      from i have "(97 + i) mod 256 = 97 + i" by simp
      then have "child_index a = Some i"
        using i by (simp add: child_index_def a Let_def)
      with walk show "\<exists>i. child_index a = Some i \<and> contains_walk (cs ! i) s' False = Inr True"
        by blast
    qed
    also have "\<dots> \<longleftrightarrow> s \<in> ?A \<union> ?B"
      by (auto simp: Cons)
    finally show ?thesis .
  qed
qed

lemma char_of_letter_inj:
  "i < ALPHA_SIZE \<Longrightarrow> j < ALPHA_SIZE \<Longrightarrow> (char_of (97 + i) :: char) = char_of (97 + j) \<Longrightarrow> i = j"
proof -
  assume i: "i < ALPHA_SIZE" and j: "j < ALPHA_SIZE"
    and eq: "(char_of (97 + i) :: char) = char_of (97 + j)"
  from eq have "(of_char (char_of (97 + i) :: char) :: nat) = of_char (char_of (97 + j) :: char)"
    by simp
  then have "(97 + i) mod 256 = (97 + j) mod 256" by simp
  with i j show "i = j" by simp
qed

lemma words_below_count:
  "wf_slot c \<Longrightarrow> finite {s. contains_walk c s False = Inr True}
     \<and> card {s. contains_walk c s False = Inr True} = count_words c"
proof (induction c rule: count_words.induct)
  case 1
  then show ?case by simp
next
  case (2 w cs)
  let ?W = "\<lambda>c. {s. contains_walk c s False = Inr True}"
  let ?A = "if w then {[]} else {} :: string set"
  let ?F = "\<lambda>i. (#) (char_of (97 + i)) ` ?W (cs ! i)"
  let ?B = "\<Union>i\<in>{..<ALPHA_SIZE}. ?F i"
  from "2.prems" have len: "length cs = ALPHA_SIZE" and wf: "\<And>x. x \<in> set cs \<Longrightarrow> wf_slot x"
    by (simp_all add: list_all_iff)
  have ih: "finite (?W (cs ! i)) \<and> card (?W (cs ! i)) = count_words (cs ! i)"
    if "i < ALPHA_SIZE" for i
    using "2.IH" [of "cs ! i"] wf [of "cs ! i"] that len by simp
  have finF: "finite (?F i)" if "i < ALPHA_SIZE" for i
    using ih [OF that] by simp
  have cardF: "card (?F i) = count_words (cs ! i)" if "i < ALPHA_SIZE" for i
    using ih [OF that] by (simp add: card_image)
  have disj: "?F i \<inter> ?F j = {}" if "i < ALPHA_SIZE" "j < ALPHA_SIZE" "i \<noteq> j" for i j
    using char_of_letter_inj [OF that(1,2)] that(3) by auto
  have finB: "finite ?B" using finF by blast
  have "card ?B = (\<Sum>i\<in>{..<ALPHA_SIZE}. card (?F i))"
    by (rule card_UN_disjoint) (use finF disj in auto)
  also have "\<dots> = (\<Sum>i\<in>{..<ALPHA_SIZE}. count_words (cs ! i))"
    by (rule sum.cong) (use cardF in auto)
  also have "\<dots> = sum_list (map count_words cs)"
    using len by (simp add: sum_list_sum_nth atLeast0LessThan)
  finally have cardB: "card ?B = sum_list (map count_words cs)" .
  have AB: "?A \<inter> ?B = {}" by auto
  have split: "?W (Some (LexNode w cs)) = ?A \<union> ?B"
    by (rule words_below_split)
  have "finite ?A" by simp
  then have "card (?A \<union> ?B) = card ?A + card ?B"
    using finB AB by (rule card_Un_disjoint)
  then have "card (?W (Some (LexNode w cs))) = count_words (Some (LexNode w cs))"
    unfolding split using cardB by simp
  moreover have "finite (?W (Some (LexNode w cs)))"
    unfolding split using finB by simp
  ultimately show ?case by blast
qed

subsection \<open>Removal of a prefix\<close>

lemma remove_prefix_walk_ConsD:
  assumes "remove_prefix_walk c (a # p) wc = Inr (Some (c', wc'))"
  obtains n i slot where "c = Some n" and "child_index a = Some i"
    and "remove_prefix_walk (children n ! i) p wc = Inr (Some (slot, wc'))"
    and "c' = Some (LexNode (is_word n) ((children n)[i := slot]))"
  using assms by (cases c) (auto split: option.splits sum.splits)

lemma remove_prefix_walk_found:
  "lowercase p \<Longrightarrow>
     (\<exists>r. remove_prefix_walk c p wc = Inr (Some r)) \<longleftrightarrow> contains_walk c p True = Inr True"
proof (induction p arbitrary: c)
  case Nil
  then show ?case by (cases c) auto
next
  case (Cons a p)
  then obtain i where i: "child_index a = Some i" and p: "lowercase p"
    using child_index_lower [of a] by (auto simp: lowercase_def)
  show ?case
  proof (cases c)
    case None
    then show ?thesis by simp
  next
    case (Some n)
    from remove_prefix_walk_total [OF p] obtain r where
      r: "remove_prefix_walk (children n ! i) p wc = Inr r" by blast
    have "(\<exists>r'. r = Some r') \<longleftrightarrow> contains_walk (children n ! i) p True = Inr True"
      using Cons.IH [OF p, of "children n ! i"] r by simp
    then show ?thesis
      using Some i r by (cases r) auto
  qed
qed

lemma remove_prefix_walk_not_found:
  "lowercase p \<Longrightarrow> remove_prefix_walk c p wc = Inr None \<longleftrightarrow> contains_walk c p True \<noteq> Inr True"
proof -
  assume p: "lowercase p"
  from remove_prefix_walk_total [OF p] obtain r where r: "remove_prefix_walk c p wc = Inr r"
    by blast
  show ?thesis
    using remove_prefix_walk_found [OF p, of c wc] r by (cases r) auto
qed

lemma wf_remove_prefix_walk:
  "wf_slot c \<Longrightarrow> remove_prefix_walk c p wc = Inr (Some (c', wc')) \<Longrightarrow> wf_slot c'"
proof (induction p arbitrary: c c')
  case Nil
  then show ?case by (cases c) auto
next
  case (Cons a p)
  from Cons.prems(2) obtain n i slot where c: "c = Some n" and i: "child_index a = Some i"
    and rec: "remove_prefix_walk (children n ! i) p wc = Inr (Some (slot, wc'))"
    and c': "c' = Some (LexNode (is_word n) ((children n)[i := slot]))"
    by (rule remove_prefix_walk_ConsD)
  have "wf_slot (children n ! i)"
    using Cons.prems(1) c child_index_less [OF i] by (simp add: wf_slot_child)
  from Cons.IH [OF this rec] have "wf_slot slot" .
  moreover have "wf_slot (Some n)" using Cons.prems(1) c by simp
  ultimately show ?case
    unfolding c' by (rule wf_slot_update [rotated])
qed

lemma contains_walk_removed_prefix:
  "wf_slot c \<Longrightarrow> remove_prefix_walk c p wc = Inr (Some (c', wc'))
   \<Longrightarrow> contains_walk c' (p @ s) b = Inr False"
proof (induction p arbitrary: c c')
  case Nil
  then show ?case by (cases c) auto
next
  case (Cons a p)
  from Cons.prems(2) obtain n i slot where c: "c = Some n" and i: "child_index a = Some i"
    and rec: "remove_prefix_walk (children n ! i) p wc = Inr (Some (slot, wc'))"
    and c': "c' = Some (LexNode (is_word n) ((children n)[i := slot]))"
    by (rule remove_prefix_walk_ConsD)
  have len: "i < length (children n)"
    using Cons.prems(1) c child_index_less [OF i] wf_slot_SomeD by simp
  have "wf_slot (children n ! i)"
    using Cons.prems(1) c child_index_less [OF i] by (simp add: wf_slot_child)
  from Cons.IH [OF this rec] show ?case
    using i len by (simp add: c')
qed

lemma contains_walk_other_prefix:
  "remove_prefix_walk c p wc = Inr (Some (c', wc')) \<Longrightarrow> \<not> starts_with p v
   \<Longrightarrow> contains_walk c' v b = contains_walk c v b"
proof (induction p arbitrary: c c' v)
  case Nil
  then show ?case by (simp add: starts_with_def)
next
  case (Cons a p)
  from Cons.prems(1) obtain n i slot where c: "c = Some n" and i: "child_index a = Some i"
    and rec: "remove_prefix_walk (children n ! i) p wc = Inr (Some (slot, wc'))"
    and c': "c' = Some (LexNode (is_word n) ((children n)[i := slot]))"
    by (rule remove_prefix_walk_ConsD)
  show ?case
  proof (cases v)
    case Nil
    then show ?thesis by (simp add: c c')
  next
    case v: (Cons d v')
    show ?thesis
    proof (cases "child_index d")
      case None
      then show ?thesis by (simp add: v c c')
    next
      case (Some j)
      show ?thesis
      proof (cases "j = i")
        case False
        then show ?thesis using Some by (simp add: v c c')
      next
        case True
        then have "d = a" using Some i child_index_inj by blast
        with Cons.prems(2) v have nv: "\<not> starts_with p v'"
          by (simp add: starts_with_def)
        have old: "contains_walk c v b = contains_walk (children n ! i) v' b"
          using Some True by (simp add: v c)
        show ?thesis
        proof (cases "i < length (children n)")
          case len: True
          have "contains_walk c' v b = contains_walk slot v' b"
            using Some True len by (simp add: v c')
          also have "\<dots> = contains_walk (children n ! i) v' b"
            by (rule Cons.IH [OF rec nv])
          finally show ?thesis using old by simp
        next
          case False
          then have "(children n)[i := slot] = children n" by (simp add: list_update_beyond)
          then show ?thesis by (simp add: c c' v)
        qed
      qed
    qed
  qed
qed

lemma remove_prefix_walk_count:
  "wf_slot c \<Longrightarrow> remove_prefix_walk c p wc = Inr (Some (c', wc'))
   \<Longrightarrow> wc' = wc - of_nat (card {s. contains_walk c (p @ s) False = Inr True})"
proof (induction p arbitrary: c c')
  case Nil
  then obtain n where c: "c = Some n" and wc': "wc' = delete_node_helper (Some n) wc"
    by (cases c) auto
  show ?case
    using words_below_count [OF Nil.prems(1)] by (simp add: wc' c delete_node_helper_count)
next
  case (Cons a p)
  from Cons.prems(2) obtain n i slot where c: "c = Some n" and i: "child_index a = Some i"
    and rec: "remove_prefix_walk (children n ! i) p wc = Inr (Some (slot, wc'))"
    and c': "c' = Some (LexNode (is_word n) ((children n)[i := slot]))"
    by (rule remove_prefix_walk_ConsD)
  have "wf_slot (children n ! i)"
    using Cons.prems(1) c child_index_less [OF i] by (simp add: wf_slot_child)
  from Cons.IH [OF this rec] show ?case
    using i by (simp add: c)
qed

lemma contains_walk_True_lowercase: "contains_walk c s b = Inr True \<Longrightarrow> lowercase s"
proof (induction s arbitrary: c)
  case Nil
  then show ?case by (simp add: lowercase_def)
next
  case (Cons a s)
  then obtain n i where "child_index a = Some i" "contains_walk (children n ! i) s b = Inr True"
    by (auto simp: contains_walk_True_Cons)
  with Cons.IH [of "children n ! i"] show ?case
    using child_index_Some_iff [of a] by (auto simp: lowercase_def)
qed

lemma members_with_prefix:
  "{w. lowercase w \<and> starts_with p w \<and> clex_contains lx w = Inr True}
     = (@) p ` {s. contains_walk (root lx) (p @ s) False = Inr True}" (is "?L = ?R")
proof (rule set_eqI)
  fix w
  show "w \<in> ?L \<longleftrightarrow> w \<in> ?R"
  proof
    assume "w \<in> ?L"
    then have low: "lowercase w" and pre: "take (length p) w = p"
      and mem: "clex_contains lx w = Inr True"
      by (simp_all add: starts_with_def)
    from pre have w: "w = p @ drop (length p) w"
      by (metis append_take_drop_id)
    from mem low have "contains_walk (root lx) w False = Inr True"
      by (simp add: clex_contains_def clex_contains_helper_def to_lower_case_lowercase)
    then have "drop (length p) w \<in> {s. contains_walk (root lx) (p @ s) False = Inr True}"
      using w by simp
    then show "w \<in> ?R" using w by (rule image_eqI [rotated])
  next
    assume "w \<in> ?R"
    then obtain s where w: "w = p @ s" and walk: "contains_walk (root lx) (p @ s) False = Inr True"
      by auto
    from walk have low: "lowercase w" unfolding w by (rule contains_walk_True_lowercase)
    with walk show "w \<in> ?L"
      by (simp add: w starts_with_def clex_contains_def clex_contains_helper_def
          to_lower_case_lowercase)
  qed
qed

lemma card_members_with_prefix:
  "card {w. lowercase w \<and> starts_with p w \<and> clex_contains lx w = Inr True}
     = card {s. contains_walk (root lx) (p @ s) False = Inr True}"
  unfolding members_with_prefix by (simp add: card_image inj_on_def)

lemma clex_remove_prefix_lowercase:
  assumes "wf_lex lx" "lowercase p"
  shows "\<exists>removed lx'. clex_remove_prefix lx p = Inr (removed, lx')
     \<and> (removed \<longleftrightarrow> clex_contains_prefix lx p = Inr True)
     \<and> (\<not> removed \<longrightarrow> lx' = lx)
     \<and> (removed \<longrightarrow>
          wf_lex lx'
        \<and> (\<forall>w. starts_with p (to_lower_case w) \<longrightarrow> clex_contains lx' w = Inr False)
        \<and> (\<forall>w. \<not> starts_with p (to_lower_case w) \<longrightarrow> clex_contains lx' w = clex_contains lx w)
        \<and> wordcount lx' = wordcount lx
            - of_nat (card {w. lowercase w \<and> starts_with p w \<and> clex_contains lx w = Inr True})
        \<and> (- (2 ^ 31) \<le> clex_wordcount lx
              - int (card {w. lowercase w \<and> starts_with p w \<and> clex_contains lx w = Inr True})
           \<longrightarrow> clex_wordcount lx' = clex_wordcount lx
              - int (card {w. lowercase w \<and> starts_with p w \<and> clex_contains lx w = Inr True})))"
proof -
  have low: "to_lower_case p = p" by (rule to_lower_case_lowercase [OF assms(2)])
  have wf: "wf_slot (root lx)" using assms(1) by (simp add: wf_lex_def)
  from remove_prefix_walk_total [OF assms(2)] obtain r where
    r: "remove_prefix_walk (root lx) p (wordcount lx) = Inr r" by blast
  show ?thesis
  proof (cases r)
    case None
    then have "contains_walk (root lx) p True \<noteq> Inr True"
      using r remove_prefix_walk_not_found [OF assms(2)] by simp
    then have "clex_contains_prefix lx p \<noteq> Inr True"
      by (simp add: clex_contains_prefix_def clex_contains_helper_def low)
    moreover have "clex_remove_prefix lx p = Inr (False, lx)"
      using r None by (simp add: clex_remove_prefix_def low)
    ultimately show ?thesis by blast
  next
    case (Some x)
    obtain c' wc' where x: "x = (c', wc')" by (cases x)
    have walk: "remove_prefix_walk (root lx) p (wordcount lx) = Inr (Some (c', wc'))"
      using r Some x by simp
    have found: "contains_walk (root lx) p True = Inr True"
      using remove_prefix_walk_found [OF assms(2), of "root lx" "wordcount lx"] walk by simp
    have res: "clex_remove_prefix lx p = Inr (True, \<lparr>root = c', wordcount = wc'\<rparr>)"
      using walk by (simp add: clex_remove_prefix_def low)
    have gone: "clex_contains \<lparr>root = c', wordcount = wc'\<rparr> w = Inr False"
      if "starts_with p (to_lower_case w)" for w
    proof -
      from that have "to_lower_case w = p @ drop (length p) (to_lower_case w)"
        by (metis append_take_drop_id starts_with_def)
      then show ?thesis
        using contains_walk_removed_prefix [OF wf walk, of "drop (length p) (to_lower_case w)" False]
        by (simp add: clex_contains_def clex_contains_helper_def)
    qed
    have kept: "clex_contains \<lparr>root = c', wordcount = wc'\<rparr> w = clex_contains lx w"
      if "\<not> starts_with p (to_lower_case w)" for w
      using contains_walk_other_prefix [OF walk that]
      by (simp add: clex_contains_def clex_contains_helper_def)
    let ?N = "card {w. lowercase w \<and> starts_with p w \<and> clex_contains lx w = Inr True}"
    have "wc' = wordcount lx - of_nat ?N"
      using remove_prefix_walk_count [OF wf walk] by (simp add: card_members_with_prefix)
    then have count: "wordcount \<lparr>root = c', wordcount = wc'\<rparr> = wordcount lx - of_nat ?N"
      by simp
    have count': "clex_wordcount \<lparr>root = c', wordcount = wc'\<rparr> = clex_wordcount lx - int ?N"
      if "- (2 ^ 31) \<le> clex_wordcount lx - int ?N"
      using that count by (simp add: clex_wordcount_def sint_sub_of_nat)
    have wf': "wf_lex \<lparr>root = c', wordcount = wc'\<rparr>"
      using wf_remove_prefix_walk [OF wf walk] by (simp add: wf_lex_def)
    have found': "clex_contains_prefix lx p = Inr True"
      using found by (simp add: clex_contains_prefix_def clex_contains_helper_def low)
    show ?thesis
      using res found' wf' gone kept count count' by blast
  qed
qed

lemma clex_contains_no_root: "root lx = None \<Longrightarrow> clex_contains lx w = Inr False"
  by (simp add: clex_contains_def clex_contains_helper_def)

lemma card_members:
  "card {w. lowercase w \<and> clex_contains lx w = Inr True}
     = card {s. contains_walk (root lx) s False = Inr True}"
  using card_members_with_prefix [of "[]" lx] by (simp add: starts_with_def)

subsection \<open>Scrubbing\<close>

lemma no_dangling_children: "no_dangling (Some n) \<Longrightarrow> list_all no_dangling (children n)"
  by (cases n) simp

lemma list_all_update: "list_all P xs \<Longrightarrow> P x \<Longrightarrow> list_all P (xs[i := x])"
  by (auto simp: list_all_iff dest: set_update_subset_insert [THEN subsetD])

lemma list_ex_update: "i < length xs \<Longrightarrow> P x \<Longrightarrow> list_ex P (xs[i := x])"
  by (auto simp: list_ex_iff set_update_memI)

lemma scrub_no_dangling:
  "no_dangling (fst (scrub_empty_branches c wc))
     \<and> (branch_contains_words c \<longrightarrow> fst (scrub_empty_branches c wc) \<noteq> None)"
  "list_all no_dangling (fst (scrub_children cs wc))
     \<and> (list_ex branch_contains_words cs \<longrightarrow>
          list_ex (\<lambda>c. c \<noteq> None) (fst (scrub_children cs wc)))"
proof (induction c wc and cs wc rule: scrub_empty_branches_scrub_children.induct)
  case (1 wc)
  then show ?case by simp
next
  case (2 w cs wc)
  show ?case
  proof (cases "w \<or> branch_contains_words (Some (LexNode w cs))")
    case True
    with "2.IH" show ?thesis
      by (auto split: prod.splits)
  next
    case False
    then show ?thesis by simp
  qed
next
  case (3 wc)
  then show ?case by simp
next
  case (4 c cs wc)
  obtain c' wc1 where c': "scrub_empty_branches c wc = (c', wc1)" by force
  obtain cs' wc2 where cs': "scrub_children cs wc1 = (cs', wc2)" by force
  from "4.IH"(1) c' have 1: "no_dangling c'" "branch_contains_words c \<longrightarrow> c' \<noteq> None"
    by simp_all
  from "4.IH"(2) [OF c' [symmetric]] cs'
  have 2: "list_all no_dangling cs'"
    "list_ex branch_contains_words cs \<longrightarrow> list_ex (\<lambda>c. c \<noteq> None) cs'"
    by simp_all
  from 1 2 show ?case by (auto simp: c' cs')
qed

lemma scrub_wf:
  "wf_slot c \<Longrightarrow> wf_slot (fst (scrub_empty_branches c wc))"
  "list_all wf_slot cs \<Longrightarrow> list_all wf_slot (fst (scrub_children cs wc))
     \<and> length (fst (scrub_children cs wc)) = length cs"
proof (induction c wc and cs wc rule: scrub_empty_branches_scrub_children.induct)
  case (1 wc)
  then show ?case by simp
next
  case (2 w cs wc)
  show ?case
  proof (cases "w \<or> branch_contains_words (Some (LexNode w cs))")
    case True
    with "2.IH" "2.prems" show ?thesis
      by (auto split: prod.splits)
  next
    case False
    then show ?thesis by simp
  qed
next
  case (3 wc)
  then show ?case by simp
next
  case (4 c cs wc)
  obtain c' wc1 where c': "scrub_empty_branches c wc = (c', wc1)" by force
  obtain cs' wc2 where cs': "scrub_children cs wc1 = (cs', wc2)" by force
  from "4.prems" have p: "wf_slot c" "list_all wf_slot cs" by simp_all
  from "4.IH"(1) [OF p(1)] c' have 1: "wf_slot c'" by simp
  from "4.IH"(2) [OF c' [symmetric] p(2)] cs'
  have 2: "list_all wf_slot cs'" "length cs' = length cs" by simp_all
  from 1 2 show ?case by (simp add: c' cs')
qed

lemma scrub_root_flag:
  "scrub_empty_branches (Some n) wc = (Some n', wc') \<Longrightarrow> is_word n' = is_word n"
  by (cases n) (auto split: if_splits prod.splits)

subsection \<open>The descent of a removal\<close>

lemma remove_walk_SomeD:
  "remove_walk c w = Inr (Some (c', freed))
   \<Longrightarrow> \<exists>n cs'. c = Some n \<and> c' = Some (LexNode (is_word n) cs') \<and> length cs' = length (children n)"
  by (induction c w rule: remove_walk.induct)
     (auto split: option.splits sum.splits if_splits prod.splits)

lemma wf_remove_walk:
  "wf_slot c \<Longrightarrow> remove_walk c w = Inr (Some (c', freed)) \<Longrightarrow> wf_slot c'"
proof (induction c w arbitrary: c' freed rule: remove_walk.induct)
  case (1 curr_node)
  then show ?case by simp
next
  case (2 curr_node last_ch)
  from "2.prems"(2) obtain n i word_node where c: "curr_node = Some n"
    and i: "child_index last_ch = Some i" and wn: "children n ! i = Some word_node"
    and c': "c' = Some (LexNode (is_word n) ((children n)[i := Some (LexNode False (children word_node))]))
           \<or> c' = Some (LexNode (is_word n) ((children n)[i := None]))"
    by (auto split: option.splits if_splits)
  have n: "wf_slot (Some n)" using "2.prems"(1) c by simp
  have "wf_slot (Some word_node)"
    using wf_slot_child [OF n child_index_less [OF i]] wn by simp
  then have "wf_slot (Some (LexNode False (children word_node)))"
    by (cases word_node) simp
  with c' n show ?case
    using wf_slot_update [OF n, of "Some (LexNode False (children word_node))" "is_word n" i]
      wf_slot_update [OF n, of None "is_word n" i] by auto
next
  case (3 curr_node ith v va)
  from "3.prems"(2) obtain n i slot where c: "curr_node = Some n"
    and i: "child_index ith = Some i"
    and rec: "remove_walk (children n ! i) (v # va) = Inr (Some (slot, freed))"
    and c': "c' = Some (LexNode (is_word n) ((children n)[i := slot]))"
    by (auto split: option.splits sum.splits prod.splits)
  have n: "wf_slot (Some n)" using "3.prems"(1) c by simp
  have "wf_slot (children n ! i)"
    using wf_slot_child [OF n child_index_less [OF i]] .
  from "3.IH" [OF c i this rec] have "wf_slot slot" .
  with n show ?case unfolding c' by (rule wf_slot_update)
qed

lemma remove_walk_keeps_no_dangling:
  "wf_slot c \<Longrightarrow> (\<And>n. c = Some n \<Longrightarrow> list_all no_dangling (children n))
   \<Longrightarrow> remove_walk c w = Inr (Some (c', False))
   \<Longrightarrow> no_dangling c' \<and> (\<exists>n'. c' = Some n' \<and> list_ex (\<lambda>c. c \<noteq> None) (children n'))"
proof (induction c w arbitrary: c' rule: remove_walk.induct)
  case (1 curr_node)
  then show ?case by simp
next
  case (2 curr_node last_ch)
  from "2.prems"(3) obtain n i word_node where c: "curr_node = Some n"
    and i: "child_index last_ch = Some i" and wn: "children n ! i = Some word_node"
    and kids: "list_ex (\<lambda>c. c \<noteq> None) (children word_node)"
    and c': "c' = Some (LexNode (is_word n) ((children n)[i := Some (LexNode False (children word_node))]))"
    by (auto split: option.splits if_splits)
  have n: "wf_slot (Some n)" using "2.prems"(1) c by simp
  have len: "i < length (children n)"
    using wf_slot_SomeD [OF n] child_index_less [OF i] by simp
  have all: "list_all no_dangling (children n)"
    using "2.prems"(2) c by simp
  then have "no_dangling (Some word_node)"
    using wn len by (metis list_all_length)
  then have "no_dangling (Some (LexNode False (children word_node)))"
    using kids by (simp add: no_dangling_children)
  with all have "list_all no_dangling ((children n)[i := Some (LexNode False (children word_node))])"
    by (rule list_all_update)
  moreover have "list_ex (\<lambda>c. c \<noteq> None) ((children n)[i := Some (LexNode False (children word_node))])"
    using len by (rule list_ex_update) simp
  ultimately show ?case by (simp add: c')
next
  case (3 curr_node ith v va)
  from "3.prems"(3) obtain n i slot where c: "curr_node = Some n"
    and i: "child_index ith = Some i"
    and rec: "remove_walk (children n ! i) (v # va) = Inr (Some (slot, False))"
    and c': "c' = Some (LexNode (is_word n) ((children n)[i := slot]))"
    by (auto split: option.splits sum.splits prod.splits)
  have n: "wf_slot (Some n)" using "3.prems"(1) c by simp
  have len: "i < length (children n)"
    using wf_slot_SomeD [OF n] child_index_less [OF i] by simp
  have all: "list_all no_dangling (children n)"
    using "3.prems"(2) c by simp
  then have nd: "no_dangling (children n ! i)"
    using len by (metis list_all_length)
  have wfc: "wf_slot (children n ! i)"
    using wf_slot_child [OF n child_index_less [OF i]] .
  have "list_all no_dangling (children m)" if "children n ! i = Some m" for m
    using nd that by (simp add: no_dangling_children)
  from "3.IH" [OF c i wfc this rec] have slot: "no_dangling slot" "slot \<noteq> None" by auto
  from all slot(1) have "list_all no_dangling ((children n)[i := slot])"
    by (rule list_all_update)
  moreover have "list_ex (\<lambda>c. c \<noteq> None) ((children n)[i := slot])"
    using len slot(2) by (rule list_ex_update)
  ultimately show ?case by (simp add: c')
qed

subsection \<open>Invariants of the client calls\<close>

lemma add_path_no_dangling:
  "wf_slot (Some n) \<Longrightarrow> list_all no_dangling (children n) \<Longrightarrow> add_path n w = Inr n'
   \<Longrightarrow> no_dangling (Some n')"
proof (induction w arbitrary: n n')
  case Nil
  then show ?case by auto
next
  case (Cons c w)
  from Cons.prems(3) obtain i m' where i: "child_index c = Some i"
    and rec: "add_path (case children n ! i of None \<Rightarrow> create_node | Some m \<Rightarrow> m) w = Inr m'"
    and n': "n' = LexNode (is_word n) ((children n)[i := Some m'])"
    by (rule add_path_ConsD)
  let ?next = "case children n ! i of None \<Rightarrow> create_node | Some m \<Rightarrow> m"
  have len: "i < length (children n)"
    using wf_slot_SomeD [OF Cons.prems(1)] child_index_less [OF i] by simp
  have wf: "wf_slot (Some ?next)"
    using wf_slot_child [OF Cons.prems(1) child_index_less [OF i]]
    by (auto simp: wf_slot_create_node split: option.splits)
  have "no_dangling (children n ! i)"
    using Cons.prems(2) len by (metis list_all_length)
  then have "list_all no_dangling (children ?next)"
  proof (cases "children n ! i")
    case None
    then show ?thesis by (simp add: create_node_def list_all_iff)
  next
    case (Some m)
    assume "no_dangling (children n ! i)"
    with Some show ?thesis by (simp add: no_dangling_children)
  qed
  from Cons.IH [OF wf this rec] have "no_dangling (Some m')" .
  with Cons.prems(2) have "list_all no_dangling ((children n)[i := Some m'])"
    by (rule list_all_update)
  moreover have "list_ex (\<lambda>c. c \<noteq> None) ((children n)[i := Some m'])"
    using len by (rule list_ex_update) simp
  ultimately show ?case by (simp add: n')
qed

lemma add_path_flag: "add_path n w = Inr n' \<Longrightarrow> w \<noteq> [] \<Longrightarrow> is_word n' = is_word n"
  by (cases w) (auto simp: Let_def split: option.splits sum.splits)

lemma wf_clex_add: "wf_lex lx \<Longrightarrow> clex_add lx w = Inr lx' \<Longrightarrow> wf_lex lx'"
  by (auto simp: wf_lex_def clex_add_def clex_simple_add_def wf_add_path
      split: option.splits sum.splits)

lemma wf_clex_remove: "wf_lex lx \<Longrightarrow> clex_remove lx w = Inr (b, lx') \<Longrightarrow> wf_lex lx'"
proof -
  assume wf: "wf_lex lx" and rm: "clex_remove lx w = Inr (b, lx')"
  show ?thesis
  proof (cases "remove_walk (root lx) (to_lower_case w)")
    case (Inl e)
    with rm show ?thesis by (simp add: clex_remove_def)
  next
    case (Inr r)
    show ?thesis
    proof (cases r)
      case None
      with rm Inr wf show ?thesis by (simp add: clex_remove_def)
    next
      case (Some x)
      obtain c' freed where x: "x = (c', freed)" by (cases x)
      have walk: "remove_walk (root lx) (to_lower_case w) = Inr (Some (c', freed))"
        using Inr Some x by simp
      have c': "wf_slot c'"
        using wf walk by (auto simp: wf_lex_def intro: wf_remove_walk)
      then have "wf_slot (fst (scrub_empty_branches c' (wordcount lx - 1)))"
        by (rule scrub_wf)
      with c' rm walk show ?thesis
        by (auto simp: clex_remove_def wf_lex_def Let_def split: if_splits prod.splits)
    qed
  qed
qed

lemma wf_clex_remove_prefix:
  "wf_lex lx \<Longrightarrow> clex_remove_prefix lx p = Inr (b, lx') \<Longrightarrow> wf_lex lx'"
  by (auto simp: clex_remove_prefix_def wf_lex_def split: sum.splits option.splits
      intro: wf_remove_prefix_walk)

lemma wf_clex_clear: "wf_lex (clex_clear lx)"
  by (simp add: clex_clear_def wf_lex_def wf_slot_create_node)

lemma wf_apply_op: "wf_lex lx \<Longrightarrow> apply_op lx x = Inr lx' \<Longrightarrow> wf_lex lx'"
  by (cases x)
     (auto simp: wf_clex_clear split: sum.splits prod.splits
       dest: wf_clex_add wf_clex_remove wf_clex_remove_prefix)

lemma run_invariant:
  assumes step: "\<And>lx x lx'. Inv lx \<Longrightarrow> x \<in> set ops \<Longrightarrow> apply_op lx x = Inr lx' \<Longrightarrow> Inv lx'"
  shows "Inv lx \<Longrightarrow> run lx ops = Inr lx' \<Longrightarrow> Inv lx'"
  using step
proof (induction ops arbitrary: lx)
  case Nil
  then show ?case by simp
next
  case (Cons x ops)
  from Cons.prems(2) obtain lx1 where 1: "apply_op lx x = Inr lx1" and 2: "run lx1 ops = Inr lx'"
    by (auto split: sum.splits)
  have "Inv lx1" using Cons.prems(3) [OF Cons.prems(1) _ 1] by simp
  then show ?case
    using 2 Cons.prems(3) by (intro Cons.IH) auto
qed

lemma I1_I: "no_dangling (root lx) \<Longrightarrow> I1 lx"
  by (cases "root lx") (auto simp: I1_def no_dangling_children)

lemma I1_clex_add:
  assumes "wf_lex lx" "I1 lx" "clex_add lx w = Inr lx'"
  shows "I1 lx'"
proof -
  from assms(3) obtain r r' where r: "root lx = Some r"
    and r': "add_path r (to_lower_case w) = Inr r'" and lx': "root lx' = Some r'"
    by (auto simp: clex_add_def clex_simple_add_def split: option.splits sum.splits)
  have "no_dangling (Some r')"
    using assms(1,2) r r' by (intro add_path_no_dangling [of r]) (auto simp: wf_lex_def I1_def)
  then show ?thesis by (simp add: I1_def lx' no_dangling_children)
qed

lemma I1_clex_remove:
  assumes "wf_lex lx" "I1 lx" "clex_remove lx w = Inr (b, lx')"
  shows "I1 lx'"
proof (cases "remove_walk (root lx) (to_lower_case w)")
  case (Inl e)
  with assms(3) show ?thesis by (simp add: clex_remove_def)
next
  case (Inr r)
  show ?thesis
  proof (cases r)
    case None
    with assms Inr show ?thesis by (simp add: clex_remove_def)
  next
    case (Some x)
    obtain c' freed where x: "x = (c', freed)" by (cases x)
    have walk: "remove_walk (root lx) (to_lower_case w) = Inr (Some (c', freed))"
      using Inr Some x by simp
    show ?thesis
    proof (cases freed)
      case True
      have "no_dangling (fst (scrub_empty_branches c' (wordcount lx - 1)))"
        using scrub_no_dangling(1) by blast
      moreover have "root lx' = fst (scrub_empty_branches c' (wordcount lx - 1))"
        using assms(3) walk True by (auto simp: clex_remove_def Let_def split: prod.splits)
      ultimately have "no_dangling (root lx')" by simp
      then show ?thesis by (rule I1_I)
    next
      case False
      have walk': "remove_walk (root lx) (to_lower_case w) = Inr (Some (c', False))"
        using walk False by simp
      have "wf_slot (root lx)" using assms(1) by (simp add: wf_lex_def)
      moreover have "list_all no_dangling (children n)" if "root lx = Some n" for n
        using assms(2) that by (simp add: I1_def)
      ultimately have "no_dangling c'"
        using walk' by (rule remove_walk_keeps_no_dangling [THEN conjunct1])
      moreover have "root lx' = c'"
        using assms(3) walk False by (auto simp: clex_remove_def Let_def)
      ultimately have "no_dangling (root lx')" by simp
      then show ?thesis by (rule I1_I)
    qed
  qed
qed

lemma I1_clex_clear: "I1 (clex_clear lx)"
  by (simp add: clex_clear_def I1_def create_node_def list_all_iff)

lemma I1_clex_create: "I1 clex_create"
  by (simp add: clex_create_def I1_def create_node_def list_all_iff)

lemma flag_clex_add: "root_flag_clear lx \<Longrightarrow> w \<noteq> [] \<Longrightarrow> clex_add lx w = Inr lx' \<Longrightarrow> root_flag_clear lx'"
proof -
  assume a: "root_flag_clear lx" "w \<noteq> []" "clex_add lx w = Inr lx'"
  from a(3) obtain r r' where r: "root lx = Some r"
    and r': "add_path r (to_lower_case w) = Inr r'" and lx': "root lx' = Some r'"
    by (auto simp: clex_add_def clex_simple_add_def split: option.splits sum.splits)
  have "to_lower_case w \<noteq> []" using a(2) by (simp add: to_lower_case_def)
  from add_path_flag [OF r' this] a(1) show ?thesis
    by (simp add: root_flag_clear_def r lx')
qed

lemma flag_clex_remove: "root_flag_clear lx \<Longrightarrow> clex_remove lx w = Inr (b, lx') \<Longrightarrow> root_flag_clear lx'"
proof -
  assume a: "root_flag_clear lx" "clex_remove lx w = Inr (b, lx')"
  show ?thesis
  proof (cases "remove_walk (root lx) (to_lower_case w)")
    case (Inl e)
    with a(2) show ?thesis by (simp add: clex_remove_def)
  next
    case (Inr r)
    show ?thesis
    proof (cases r)
      case None
      with a Inr show ?thesis by (simp add: clex_remove_def)
    next
      case (Some x)
      obtain c' freed where x: "x = (c', freed)" by (cases x)
      have walk: "remove_walk (root lx) (to_lower_case w) = Inr (Some (c', freed))"
        using Inr Some x by simp
      from remove_walk_SomeD [OF walk] obtain n cs' where
        n: "root lx = Some n" and c': "c' = Some (LexNode (is_word n) cs')" by blast
      have flag: "\<not> is_word n" using a(1) n by (simp add: root_flag_clear_def)
      show ?thesis
      proof (cases "root lx'")
        case None
        then show ?thesis by (simp add: root_flag_clear_def)
      next
        case (Some r')
        have "is_word r' = is_word (LexNode (is_word n) cs')"
        proof (cases freed)
          case True
          then obtain wc' where "scrub_empty_branches c' (wordcount lx - 1) = (Some r', wc')"
            using a(2) walk Some by (auto simp: clex_remove_def Let_def split: prod.splits)
          then show ?thesis unfolding c' by (rule scrub_root_flag)
        next
          case False
          then have "root lx' = c'"
            using a(2) walk by (auto simp: clex_remove_def Let_def)
          then show ?thesis using Some c' by simp
        qed
        with flag Some show ?thesis by (simp add: root_flag_clear_def)
      qed
    qed
  qed
qed

lemma remove_prefix_walk_flag:
  "remove_prefix_walk (Some n) p wc = Inr (Some (Some n', wc')) \<Longrightarrow> is_word n' = is_word n"
  by (cases p) (auto split: option.splits sum.splits)

lemma flag_clex_remove_prefix:
  "root_flag_clear lx \<Longrightarrow> clex_remove_prefix lx p = Inr (b, lx') \<Longrightarrow> root_flag_clear lx'"
proof -
  assume a: "root_flag_clear lx" "clex_remove_prefix lx p = Inr (b, lx')"
  show ?thesis
  proof (cases "root lx'")
    case None
    then show ?thesis by (simp add: root_flag_clear_def)
  next
    case (Some r')
    show ?thesis
    proof (cases b)
      case False
      with a show ?thesis
        by (auto simp: clex_remove_prefix_def split: sum.splits option.splits)
    next
      case True
      with a(2) Some obtain wc' where
        walk: "remove_prefix_walk (root lx) (to_lower_case p) (wordcount lx) = Inr (Some (Some r', wc'))"
        by (auto simp: clex_remove_prefix_def split: sum.splits option.splits)
      then obtain n where n: "root lx = Some n"
        by (cases "root lx") auto
      from remove_prefix_walk_flag [OF walk [unfolded n]] a(1) show ?thesis
        by (simp add: root_flag_clear_def n Some)
    qed
  qed
qed

lemma flag_clex_clear: "root_flag_clear (clex_clear lx)"
  by (simp add: clex_clear_def root_flag_clear_def create_node_def)

lemma flag_clex_create: "root_flag_clear clex_create"
  by (simp add: clex_create_def root_flag_clear_def create_node_def)

lemma root_clex_add: "clex_add lx w = Inr lx' \<Longrightarrow> root lx' \<noteq> None"
  by (auto simp: clex_add_def clex_simple_add_def split: option.splits sum.splits)

lemma no_dangling_branch: "no_dangling c \<Longrightarrow> c \<noteq> None \<Longrightarrow> branch_contains_words c"
proof (induction c rule: no_dangling.induct)
  case 1
  then show ?case by simp
next
  case (2 w cs)
  show ?case
  proof (cases w)
    case True
    then show ?thesis by simp
  next
    case False
    with "2.prems"(1) obtain c where c: "c \<in> set cs" "c \<noteq> None"
      by (auto simp: list_ex_iff)
    moreover from "2.prems"(1) c(1) have "no_dangling c" by (simp add: list_all_iff)
    ultimately have "branch_contains_words c" by (intro "2.IH")
    with c(1) show ?thesis by (auto simp: list_ex_iff)
  qed
qed

subsection \<open>The count across a removal\<close>

lemma count_words_no_branch: "\<not> branch_contains_words c \<Longrightarrow> count_words c = 0"
proof (induction c rule: count_words.induct)
  case 1
  then show ?case by simp
next
  case (2 w cs)
  then have "\<And>x. x \<in> set cs \<Longrightarrow> count_words x = 0"
    by (auto simp: list_ex_iff)
  then have "sum_list (map count_words cs) = 0" by simp
  with "2.prems" show ?case by simp
qed

lemma scrub_count:
  "snd (scrub_empty_branches c wc) = wc"
  "snd (scrub_children cs wc) = wc"
proof (induction c wc and cs wc rule: scrub_empty_branches_scrub_children.induct)
  case (1 wc)
  then show ?case by simp
next
  case (2 w cs wc)
  show ?case
  proof (cases "w \<or> branch_contains_words (Some (LexNode w cs))")
    case True
    with "2.IH" show ?thesis by (auto split: prod.splits)
  next
    case False
    then have "\<And>x. x \<in> set cs \<Longrightarrow> count_words x = 0"
      by (auto simp: list_ex_iff intro: count_words_no_branch)
    then have z: "sum_list (map count_words cs) = 0" by simp
    have "fold delete_node_helper cs wc = wc - of_nat (sum_list (map count_words cs))"
      by (rule fold_decrement) (rule delete_node_helper_count)
    then have "fold delete_node_helper cs wc = wc" unfolding z by simp
    then show ?thesis using False by simp
  qed
next
  case (3 wc)
  then show ?case by simp
next
  case (4 c cs wc)
  obtain c' wc1 where c': "scrub_empty_branches c wc = (c', wc1)" by force
  obtain cs' wc2 where cs': "scrub_children cs wc1 = (cs', wc2)" by force
  from "4.IH"(1) c' have 1: "wc1 = wc" by simp
  from "4.IH"(2) [OF c' [symmetric]] cs' have 2: "wc2 = wc1" by simp
  have "scrub_children (c # cs) wc = (c' # cs', wc2)" by (simp add: c' cs')
  with 1 2 show ?case by simp
qed

lemma clex_remove_False: "clex_remove lx w = Inr (False, lx') \<Longrightarrow> lx' = lx"
  by (auto simp: clex_remove_def Let_def split: sum.splits option.splits prod.splits if_splits)

lemma clex_remove_True_count:
  assumes "clex_remove lx w = Inr (True, lx')"
  shows "wordcount lx' = wordcount lx - 1"
proof -
  from assms obtain r freed where
    walk: "remove_walk (root lx) (to_lower_case w) = Inr (Some (r, freed))"
    by (auto simp: clex_remove_def Let_def split: sum.splits option.splits)
  show ?thesis
  proof (cases freed)
    case True
    with assms walk have "wordcount lx' = snd (scrub_empty_branches r (wordcount lx - 1))"
      by (auto simp: clex_remove_def Let_def split: prod.splits)
    then show ?thesis by (simp add: scrub_count)
  next
    case False
    with assms walk show ?thesis by (auto simp: clex_remove_def Let_def)
  qed
qed

subsection \<open>When a removal frees the root\<close>

lemma count_words_branch: "branch_contains_words c \<Longrightarrow> 0 < count_words c"
proof (induction c rule: count_words.induct)
  case 1
  then show ?case by simp
next
  case (2 w cs)
  show ?case
  proof (cases w)
    case True
    then show ?thesis by simp
  next
    case False
    with "2.prems" obtain c where c: "c \<in> set cs" "branch_contains_words c"
      by (auto simp: list_ex_iff)
    then have "0 < count_words c" by (intro "2.IH")
    moreover have "count_words c \<le> sum_list (map count_words cs)"
      using c(1) by (simp add: member_le_sum_list)
    ultimately show ?thesis by simp
  qed
qed

lemma branch_contains_words_iff:
  assumes "wf_slot c"
  shows "branch_contains_words c \<longleftrightarrow> (\<exists>s. contains_walk c s False = Inr True)"
proof -
  let ?S = "{s. contains_walk c s False = Inr True}"
  from words_below_count [OF assms] have fin: "finite ?S" and card: "card ?S = count_words c"
    by simp_all
  have "branch_contains_words c \<longleftrightarrow> 0 < count_words c"
  proof
    assume "branch_contains_words c"
    then show "0 < count_words c" by (rule count_words_branch)
  next
    assume "0 < count_words c"
    then show "branch_contains_words c"
      using count_words_no_branch [of c] by (cases "branch_contains_words c") simp_all
  qed
  also have "\<dots> \<longleftrightarrow> ?S \<noteq> {}"
    using fin card by (metis card_gt_0_iff)
  finally show ?thesis by auto
qed

lemma scrub_None_iff:
  "fst (scrub_empty_branches (Some n) wc) = None \<longleftrightarrow> \<not> branch_contains_words (Some n)"
  by (cases n) (auto split: prod.splits)

lemma contains_walk_prefix:
  "contains_walk c (p @ q) b = Inr True \<Longrightarrow> contains_walk c p True = Inr True"
proof (induction p arbitrary: c)
  case Nil
  then show ?case by (cases c) auto
next
  case (Cons a p)
  then obtain n i where "c = Some n" "child_index a = Some i"
    "contains_walk (children n ! i) (p @ q) b = Inr True"
    by (auto simp: contains_walk_True_Cons)
  with Cons.IH [of "children n ! i"] show ?case by simp
qed

lemma remove_walk_freed:
  "wf_slot c \<Longrightarrow> remove_walk c w = Inr (Some (c', True))
   \<Longrightarrow> (\<exists>wc'. remove_prefix_walk c w wc = Inr (Some (c', wc')))
       \<and> (\<forall>a. contains_walk c (w @ [a]) True \<noteq> Inr True)"
proof (induction c w arbitrary: c' rule: remove_walk.induct)
  case (1 curr_node)
  then show ?case by simp
next
  case (2 curr_node last_ch)
  from "2.prems"(2) obtain n i word_node where c: "curr_node = Some n"
    and i: "child_index last_ch = Some i" and wn: "children n ! i = Some word_node"
    and kids: "\<not> list_ex (\<lambda>c. c \<noteq> None) (children word_node)"
    and c': "c' = Some (LexNode (is_word n) ((children n)[i := None]))"
    by (auto split: option.splits if_splits)
  have "wf_slot (Some word_node)"
    using wf_slot_child [of n i] "2.prems"(1) c child_index_less [OF i] wn by simp
  then have len: "length (children word_node) = ALPHA_SIZE" by (rule wf_slot_SomeD)
  have "remove_prefix_walk curr_node [last_ch] wc
      = Inr (Some (c', delete_node_helper (Some word_node) wc))"
    by (simp add: c i wn c')
  moreover have "contains_walk curr_node ([last_ch] @ [a]) True \<noteq> Inr True" for a
  proof (cases "child_index a")
    case None
    then show ?thesis by (simp add: c i wn)
  next
    case (Some j)
    have "j < length (children word_node)"
      using child_index_less [OF Some] len by simp
    then have "children word_node ! j = None"
      using kids by (auto simp: list_ex_iff)
    then show ?thesis by (simp add: c i wn Some)
  qed
  ultimately show ?case by blast
next
  case (3 curr_node ith v va)
  from "3.prems"(2) obtain n i slot where c: "curr_node = Some n"
    and i: "child_index ith = Some i"
    and rec: "remove_walk (children n ! i) (v # va) = Inr (Some (slot, True))"
    and c': "c' = Some (LexNode (is_word n) ((children n)[i := slot]))"
    by (auto split: option.splits sum.splits prod.splits)
  have "wf_slot (children n ! i)"
    using wf_slot_child [of n i] "3.prems"(1) c child_index_less [OF i] by simp
  from "3.IH" [OF c i this rec] obtain wc' where
    1: "remove_prefix_walk (children n ! i) (v # va) wc = Inr (Some (slot, wc'))"
    and 2: "\<And>a. contains_walk (children n ! i) ((v # va) @ [a]) True \<noteq> Inr True"
    by blast
  have "remove_prefix_walk curr_node (ith # v # va) wc = Inr (Some (c', wc'))"
    using 1 by (simp add: c i c')
  moreover have "contains_walk curr_node ((ith # v # va) @ [a]) True \<noteq> Inr True" for a
    using 2 [of a] by (simp add: c i)
  ultimately show ?case by blast
qed

lemma remove_walk_kept:
  "wf_slot c \<Longrightarrow> remove_walk c w = Inr (Some (c', False))
   \<Longrightarrow> c' \<noteq> None \<and> (\<exists>a. is_lower a \<and> contains_walk c (w @ [a]) True = Inr True)"
proof (induction c w arbitrary: c' rule: remove_walk.induct)
  case (1 curr_node)
  then show ?case by simp
next
  case (2 curr_node last_ch)
  from "2.prems"(2) obtain n i word_node where c: "curr_node = Some n"
    and i: "child_index last_ch = Some i" and wn: "children n ! i = Some word_node"
    and kids: "list_ex (\<lambda>c. c \<noteq> None) (children word_node)"
    and c': "c' \<noteq> None"
    by (auto split: option.splits if_splits)
  have "wf_slot (Some word_node)"
    using wf_slot_child [of n i] "2.prems"(1) c child_index_less [OF i] wn by simp
  then have len: "length (children word_node) = ALPHA_SIZE" by (rule wf_slot_SomeD)
  from kids obtain j where j: "j < length (children word_node)" "children word_node ! j \<noteq> None"
    by (auto simp: list_ex_iff in_set_conv_nth)
  define a :: char where "a = char_of (97 + j)"
  have "(97 + j) mod 256 = 97 + j" using j(1) len by simp
  then have "(of_char a :: nat) = 97 + j" by (simp add: a_def)
  then have a: "child_index a = Some j" "is_lower a"
    using j(1) len by (simp_all add: child_index_def is_lower_def Let_def)
  from j(2) obtain m where "children word_node ! j = Some m" by auto
  then have "contains_walk curr_node ([last_ch] @ [a]) True = Inr True"
    by (simp add: c i wn a(1))
  with a(2) c' show ?case by blast
next
  case (3 curr_node ith v va)
  from "3.prems"(2) obtain n i slot where c: "curr_node = Some n"
    and i: "child_index ith = Some i"
    and rec: "remove_walk (children n ! i) (v # va) = Inr (Some (slot, False))"
    and c': "c' \<noteq> None"
    by (auto split: option.splits sum.splits prod.splits)
  have "wf_slot (children n ! i)"
    using wf_slot_child [of n i] "3.prems"(1) c child_index_less [OF i] by simp
  from "3.IH" [OF c i this rec] obtain a where
    a: "is_lower a" "contains_walk (children n ! i) ((v # va) @ [a]) True = Inr True"
    by blast
  then have "contains_walk curr_node ((ith # v # va) @ [a]) True = Inr True"
    by (simp add: c i)
  with a(1) c' show ?case by blast
qed

lemma to_lower_case_append_lower:
  "is_lower a \<Longrightarrow> to_lower_case (w @ [a]) = to_lower_case w @ [a]"
  by (simp add: to_lower_case_def tolower_lower)

lemma clex_remove_frees_root:
  assumes wf: "wf_lex lx" and r: "root lx \<noteq> None"
    and rm: "clex_remove lx w = Inr (removed, lx')"
  shows "root lx' = None \<longleftrightarrow>
     removed \<and> (\<forall>a. clex_contains_prefix lx (w @ [a]) \<noteq> Inr True)
       \<and> (\<forall>v. clex_contains lx v = Inr True \<longrightarrow> to_lower_case v = to_lower_case w)"
proof (cases "remove_walk (root lx) (to_lower_case w)")
  case (Inl e)
  with rm show ?thesis by (simp add: clex_remove_def)
next
  case (Inr res)
  let ?w = "to_lower_case w"
  have wfr: "wf_slot (root lx)" using wf by (simp add: wf_lex_def)
  show ?thesis
  proof (cases res)
    case None
    with rm Inr have "\<not> removed" "lx' = lx" by (simp_all add: clex_remove_def)
    with r show ?thesis by simp
  next
    case (Some x)
    obtain c' freed where x: "x = (c', freed)" by (cases x)
    have walk: "remove_walk (root lx) ?w = Inr (Some (c', freed))"
      using Inr Some x by simp
    have removed: removed
      using rm walk by (auto simp: clex_remove_def Let_def split: if_splits prod.splits)
    show ?thesis
    proof (cases freed)
      case False
      with walk have walk': "remove_walk (root lx) ?w = Inr (Some (c', False))" by simp
      from remove_walk_kept [OF wfr walk'] obtain a where
        c': "c' \<noteq> None" and a: "is_lower a" "contains_walk (root lx) (?w @ [a]) True = Inr True"
        by blast
      have "root lx' = c'"
        using rm walk False by (auto simp: clex_remove_def Let_def)
      moreover have "clex_contains_prefix lx (w @ [a]) = Inr True"
        using a by (simp add: clex_contains_prefix_def clex_contains_helper_def
            to_lower_case_append_lower)
      ultimately show ?thesis using c' by auto
    next
      case True
      with walk have walk': "remove_walk (root lx) ?w = Inr (Some (c', True))" by simp
      from remove_walk_freed [OF wfr walk', of "wordcount lx"] obtain wc' where
        pre: "remove_prefix_walk (root lx) ?w (wordcount lx) = Inr (Some (c', wc'))"
        and childless: "\<And>a. contains_walk (root lx) (?w @ [a]) True \<noteq> Inr True"
        by blast
      have wfc': "wf_slot c'" by (rule wf_remove_walk [OF wfr walk'])
      from remove_walk_SomeD [OF walk'] obtain n' where c': "c' = Some n'" by blast
      have root': "root lx' = fst (scrub_empty_branches c' (wordcount lx - 1))"
        using rm walk True by (auto simp: clex_remove_def Let_def split: prod.splits)
      have no_child: "clex_contains_prefix lx (w @ [a]) \<noteq> Inr True" for a
        using childless [of "tolower a"]
        by (simp add: clex_contains_prefix_def clex_contains_helper_def to_lower_case_def)
      have "root lx' = None \<longleftrightarrow> \<not> branch_contains_words c'"
        unfolding root' c' by (rule scrub_None_iff)
      also have "\<dots> \<longleftrightarrow> (\<forall>s. contains_walk c' s False \<noteq> Inr True)"
        using branch_contains_words_iff [OF wfc'] by simp
      also have "\<dots> \<longleftrightarrow> (\<forall>v. clex_contains lx v = Inr True \<longrightarrow> to_lower_case v = ?w)"
      proof
        assume none: "\<forall>s. contains_walk c' s False \<noteq> Inr True"
        show "\<forall>v. clex_contains lx v = Inr True \<longrightarrow> to_lower_case v = ?w"
        proof (intro allI impI)
          fix v
          let ?v = "to_lower_case v"
          assume "clex_contains lx v = Inr True"
          then have v: "contains_walk (root lx) ?v False = Inr True"
            by (simp add: clex_contains_def clex_contains_helper_def)
          have pre_v: "starts_with ?w ?v"
          proof (rule ccontr)
            assume "\<not> starts_with ?w ?v"
            from contains_walk_other_prefix [OF pre this, of False] v none
            show False by simp
          qed
          then have split: "?v = ?w @ drop (length ?w) ?v"
            by (metis append_take_drop_id starts_with_def)
          show "?v = ?w"
          proof (cases "drop (length ?w) ?v")
            case Nil
            with split show ?thesis by simp
          next
            case (Cons a t)
            with split have "?v = (?w @ [a]) @ t" by simp
            with v have "contains_walk (root lx) ((?w @ [a]) @ t) False = Inr True" by simp
            then have "contains_walk (root lx) (?w @ [a]) True = Inr True"
              by (rule contains_walk_prefix)
            with childless [of a] show ?thesis by simp
          qed
        qed
      next
        assume only: "\<forall>v. clex_contains lx v = Inr True \<longrightarrow> to_lower_case v = ?w"
        show "\<forall>s. contains_walk c' s False \<noteq> Inr True"
        proof (intro allI notI)
          fix s
          assume s: "contains_walk c' s False = Inr True"
          have ns: "\<not> starts_with ?w s"
          proof
            assume "starts_with ?w s"
            then have "s = ?w @ drop (length ?w) s"
              by (metis append_take_drop_id starts_with_def)
            with contains_walk_removed_prefix [OF wfr pre, of "drop (length ?w) s" False] s
            show False by simp
          qed
          from contains_walk_other_prefix [OF pre ns, of False] s
          have old: "contains_walk (root lx) s False = Inr True" by simp
          then have low: "lowercase s" by (rule contains_walk_True_lowercase)
          then have "clex_contains lx s = Inr True"
            using old by (simp add: clex_contains_def clex_contains_helper_def
                to_lower_case_lowercase)
          with only have "to_lower_case s = ?w" by blast
          with low have "s = ?w" by (simp add: to_lower_case_lowercase)
          with ns show False by (simp add: starts_with_def)
        qed
      qed
      finally show ?thesis using removed no_child by blast
    qed
  qed
qed

lemma clex_remove_prefix_frees_root:
  assumes "clex_remove_prefix lx p = Inr (removed, lx')"
  shows "root lx' = None \<longleftrightarrow> root lx = None \<or> p = []"
proof (cases "root lx")
  case None
  with assms show ?thesis by (simp add: clex_remove_prefix_def)
next
  case (Some n)
  show ?thesis
  proof (cases p)
    case Nil
    with assms Some show ?thesis by (auto simp: clex_remove_prefix_def to_lower_case_def)
  next
    case (Cons a q)
    with assms Some show ?thesis
      by (auto simp: clex_remove_prefix_def to_lower_case_def
          split: option.splits sum.splits)
  qed
qed

lemma card_members_with_prefix_le:
  assumes "wf_lex lx"
  shows "card {w. lowercase w \<and> starts_with p w \<and> clex_contains lx w = Inr True}
     \<le> count_words (root lx)"
proof -
  let ?All = "{s. contains_walk (root lx) s False = Inr True}"
  have wf: "wf_slot (root lx)" using assms by (simp add: wf_lex_def)
  from words_below_count [OF wf] have fin: "finite ?All" and card: "card ?All = count_words (root lx)"
    by simp_all
  have "{w. lowercase w \<and> starts_with p w \<and> clex_contains lx w = Inr True} \<subseteq> ?All"
    by (auto simp: clex_contains_def clex_contains_helper_def to_lower_case_lowercase)
  from card_mono [OF fin this] card show ?thesis by simp
qed

lemma card_members_count:
  "wf_lex lx \<Longrightarrow> card {w. lowercase w \<and> clex_contains lx w = Inr True} = count_words (root lx)"
  using words_below_count [of "root lx"] by (simp add: card_members wf_lex_def)

text \<open>
  What \<open>clex_add\<close>, \<open>clex_remove\<close> and \<open>clex_clear\<close> keep: the scrub at the end of
  \<open>clex_remove\<close> restores I1 from the root on.
\<close>

lemma I1_after_add_remove:
  assumes "run clex_create ops = Inr lx" and "\<forall>p. RemovePrefix p \<notin> set ops"
  shows "I1 lx"
proof -
  let ?Inv = "\<lambda>lx. wf_lex lx \<and> I1 lx"
  have step: "?Inv lx2" if "?Inv lx1" "x \<in> set ops" "apply_op lx1 x = Inr lx2" for lx1 x lx2
  proof (cases x)
    case (Add w)
    with that show ?thesis by (auto intro: wf_clex_add I1_clex_add)
  next
    case (Remove w)
    with that show ?thesis
      by (auto split: sum.splits prod.splits intro: wf_clex_remove I1_clex_remove)
  next
    case (RemovePrefix p)
    with that(2) assms(2) show ?thesis by simp
  next
    case Clear
    with that show ?thesis by (auto simp: wf_clex_clear I1_clex_clear)
  qed
  have "?Inv clex_create" by (simp add: wf_lex_create I1_clex_create)
  with step have "?Inv lx" using assms(1) by (rule run_invariant [where Inv = ?Inv])
  then show ?thesis by simp
qed

lemma wf_run: "run clex_create ops = Inr lx \<Longrightarrow> wf_lex lx"
  using wf_lex_create by (rule run_invariant [where Inv = wf_lex, rotated]) (auto intro: wf_apply_op)

section \<open>The empty prefix\<close>

text \<open>
  Claim C4 says that \<open>clex_contains_prefix\<close> returns false for the empty string on every
  live lexicon, empty or not. The source starts at the root, runs the loop zero times and
  returns true for a root that is there: in the lexicon that holds \<open>ripple\<close> the answer
  is true, which is what \<open>prefix_test\<close> of \<open>lextest.c\<close> expects.
\<close>

theorem clex_contains_prefix_empty_on_member:
  "run clex_create [Add ''ripple''] = Inr (state_after [Add ''ripple''])
   \<and> clex_contains (state_after [Add ''ripple'']) ''ripple'' = Inr True
   \<and> clex_contains_prefix (state_after [Add ''ripple'']) [] = Inr True"
  by code_simp

text \<open>
  Claim C4, amended: \<open>clex_contains_prefix\<close> with the empty string returns true on every
  lexicon that holds at least one word, and false on every lexicon whose root slot is
  absent.
\<close>

theorem clex_contains_prefix_empty:
  "((\<exists>w. clex_contains lx w = Inr True) \<longrightarrow> clex_contains_prefix lx [] = Inr True)
   \<and> (root lx = None \<longrightarrow> clex_contains_prefix lx [] = Inr False)"
  by (cases "root lx")
     (auto simp: clex_contains_prefix_def clex_contains_def clex_contains_helper_def
       to_lower_case_def)

text \<open>
  The lexicon that holds \<open>ripple\<close>, and the lexicon of \<open>simple_test\<close> after its only
  word was removed, whose root slot is absent.
\<close>

theorem clex_contains_prefix_empty_witness:
  "clex_contains (state_after [Add ''ripple'']) ''ripple'' = Inr True
   \<and> clex_contains_prefix (state_after [Add ''ripple'']) [] = Inr True
   \<and> run clex_create [Add ''a'', Remove ''a''] = Inr (state_after [Add ''a'', Remove ''a''])
   \<and> root (state_after [Add ''a'', Remove ''a'']) = None
   \<and> clex_contains_prefix (state_after [Add ''a'', Remove ''a'']) [] = Inr False"
proof -
  have m: "clex_contains (state_after [Add ''ripple'']) ''ripple'' = Inr True" by code_simp
  have r: "run clex_create [Add ''a'', Remove ''a''] = Inr (state_after [Add ''a'', Remove ''a''])"
    and n: "root (state_after [Add ''a'', Remove ''a'']) = None"
    by code_simp+
  from m have "clex_contains_prefix (state_after [Add ''ripple'']) [] = Inr True"
    using clex_contains_prefix_empty [of "state_after [Add ''ripple'']"] by blast
  moreover from n have "clex_contains_prefix (state_after [Add ''a'', Remove ''a'']) [] = Inr False"
    using clex_contains_prefix_empty [of "state_after [Add ''a'', Remove ''a'']"] by blast
  ultimately show ?thesis using m r n by simp
qed

section \<open>Round trip\<close>

text \<open>
  Claim C7: for every finite set of distinct non-empty lowercase words, given here as a
  list without repetitions, adding each word once to a new lexicon succeeds, after which
  \<open>clex_contains\<close> returns true for each of the words and \<open>clex_wordcount\<close> is the number
  of words. The number of words is one that the C \<open>int\<close> of the counter holds.
\<close>

theorem round_trip:
  assumes "distinct ws" and "\<forall>w\<in>set ws. w \<noteq> [] \<and> lowercase w" and "length ws < 2 ^ 31"
  shows "\<exists>lx. run clex_create (map Add ws) = Inr lx
           \<and> (\<forall>w\<in>set ws. clex_contains lx w = Inr True)
           \<and> clex_wordcount lx = int (card (set ws))"
proof -
  have "list_all lowercase ws" using assms(2) by (simp add: list_all_iff)
  from run_adds [OF wf_lex_create _ this]
  obtain lx where "run clex_create (map Add ws) = Inr lx"
    "wordcount lx = wordcount clex_create + of_nat (length ws)"
    "\<forall>w\<in>set ws. clex_contains lx w = Inr True"
    by (auto simp: clex_create_def)
  moreover from this(2) have "clex_wordcount lx = int (length ws)"
    using assms(3) by (simp add: clex_wordcount_def clex_create_def sint_of_nat_small)
  ultimately show ?thesis
    using assms(1) by (auto simp: distinct_card)
qed

text \<open>The three words that \<open>simple_test\<close> of \<open>lextest.c\<close> adds.\<close>

theorem round_trip_witness:
  "\<exists>lx. run clex_create [Add ''hello'', Add ''apple'', Add ''pear''] = Inr lx
      \<and> clex_contains lx ''hello'' = Inr True
      \<and> clex_contains lx ''apple'' = Inr True
      \<and> clex_contains lx ''pear'' = Inr True
      \<and> clex_wordcount lx = 3"
  using round_trip [of "[''hello'', ''apple'', ''pear'']"]
  by (simp add: lowercase_def is_lower_def)

section \<open>Removal of a single word\<close>

text \<open>
  Claim C1 says that \<open>clex_remove\<close> returns true exactly for the members of the set and
  that a call on a proper prefix of a stored word, which is no member, returns false and
  leaves the size as it is. The source tests only whether the node of the last letter is
  there, not its \<open>is_word\<close> flag: in the lexicon that holds just \<open>ab\<close>, the word \<open>a\<close> is no
  member, and yet \<open>clex_remove\<close> returns true for it and takes the count from 1 to 0,
  while \<open>ab\<close> stays a member.
\<close>

theorem clex_remove_prefix_of_member:
  "run clex_create [Add ''ab''] = Inr (state_after [Add ''ab''])
   \<and> clex_contains (state_after [Add ''ab'']) ''a'' = Inr False
   \<and> clex_wordcount (state_after [Add ''ab'']) = 1
   \<and> clex_remove (state_after [Add ''ab'']) ''a''
       = Inr (True, state_after [Add ''ab'', Remove ''a''])
   \<and> clex_wordcount (state_after [Add ''ab'', Remove ''a'']) = 0
   \<and> clex_contains (state_after [Add ''ab'', Remove ''a'']) ''ab'' = Inr True"
  by code_simp

section \<open>The stored count\<close>

text \<open>
  Claim C3 says that the stored count is never negative and always equals the number of
  nodes whose \<open>is_word\<close> flag is set. After \<open>a\<close> is added twice the count is 2 with one
  such node, and after \<open>ab\<close> is added and \<open>a\<close> removed twice the count is -1.
\<close>

theorem wordcount_differs_from_flagged_nodes:
  "run clex_create [Add ''a'', Add ''a''] = Inr (state_after [Add ''a'', Add ''a''])
   \<and> clex_wordcount (state_after [Add ''a'', Add ''a'']) = 2
   \<and> count_words (root (state_after [Add ''a'', Add ''a''])) = 1
   \<and> run clex_create [Add ''ab'', Remove ''a'', Remove ''a'']
       = Inr (state_after [Add ''ab'', Remove ''a'', Remove ''a''])
   \<and> clex_wordcount (state_after [Add ''ab'', Remove ''a'', Remove ''a'']) = - 1"
  by code_simp

text \<open>
  Claim C5 says that adding a word that is already a member leaves membership and size
  unchanged. \<open>clex_simple_add\<close> increments the count on every call: with \<open>a\<close> a member and
  the size 1, adding \<open>a\<close> again returns a lexicon of size 2.
\<close>

theorem clex_add_member_increments:
  "run clex_create [Add ''a''] = Inr (state_after [Add ''a''])
   \<and> clex_contains (state_after [Add ''a'']) ''a'' = Inr True
   \<and> clex_wordcount (state_after [Add ''a'']) = 1
   \<and> clex_add (state_after [Add ''a'']) ''a'' = Inr (state_after [Add ''a'', Add ''a''])
   \<and> clex_contains (state_after [Add ''a'', Add ''a'']) ''a'' = Inr True
   \<and> clex_wordcount (state_after [Add ''a'', Add ''a'']) = 2"
  by code_simp

section \<open>Undefined behaviour on words of letters\<close>

text \<open>
  Claim C9 says that on words of ASCII letters, non-empty for \<open>clex_remove\<close>, every index
  into the child array lies within \<open>0..25\<close> and every character read lies within the
  word, so that the operations are total. The indices and the reads are as the claim
  says: that is \<open>no_bad_index_add\<close>, \<open>no_bad_index_contains\<close>, \<open>no_bad_index_remove\<close> and
  \<open>no_bad_index_remove_prefix\<close> above. The operations are not total for that. The loop of
  \<open>clex_remove\<close> checks the slot before each of its steps but not after the last one: in
  the lexicon that holds just \<open>a\<close>, removing \<open>bc\<close> steps into the empty slot of \<open>b\<close> and
  then reads the child array of a \<open>NULL\<close> node. And once a removal has emptied the tree
  the root slot is \<open>NULL\<close>, which \<open>clex_add\<close> dereferences.
\<close>

theorem clex_remove_null_dereference:
  "run clex_create [Add ''a''] = Inr (state_after [Add ''a''])
   \<and> clex_remove (state_after [Add ''a'']) ''bc'' = Inl NullDeref
   \<and> run clex_create [Add ''a'', Remove ''a''] = Inr (state_after [Add ''a'', Remove ''a''])
   \<and> clex_add (state_after [Add ''a'', Remove ''a'']) ''b'' = Inl NullDeref"
  by code_simp

section \<open>Removal of a prefix\<close>

text \<open>
  Claim C8: on a live lexicon and for a non-empty prefix \<open>p\<close> of lowercase letters,
  \<open>clex_remove_prefix\<close> returns, and it returns true exactly when the tree holds the whole
  path of \<open>p\<close>, which is what \<open>clex_contains_prefix\<close> reports. When it returns true,
  \<open>clex_contains\<close> is false afterwards for every word that begins with \<open>p\<close> once folded to
  lower case, it is what it was for every other word, and the size has gone down by the
  number of members that began with \<open>p\<close>: the counter by that number in the arithmetic
  of the C \<open>int\<close>, and the value that \<open>clex_wordcount\<close> returns by that number when the
  difference is one that the C \<open>int\<close> holds.
\<close>

theorem clex_remove_prefix_correct:
  assumes "wf_lex lx" and "p \<noteq> []" and "lowercase p"
  shows "\<exists>removed lx'. clex_remove_prefix lx p = Inr (removed, lx')
     \<and> (removed \<longleftrightarrow> clex_contains_prefix lx p = Inr True)
     \<and> (removed \<longrightarrow>
          (\<forall>w. starts_with p (to_lower_case w) \<longrightarrow> clex_contains lx' w = Inr False)
        \<and> (\<forall>w. \<not> starts_with p (to_lower_case w) \<longrightarrow> clex_contains lx' w = clex_contains lx w)
        \<and> wordcount lx' = wordcount lx
            - of_nat (card {w. lowercase w \<and> starts_with p w \<and> clex_contains lx w = Inr True})
        \<and> (- (2 ^ 31) \<le> clex_wordcount lx
              - int (card {w. lowercase w \<and> starts_with p w \<and> clex_contains lx w = Inr True})
           \<longrightarrow> clex_wordcount lx' = clex_wordcount lx
              - int (card {w. lowercase w \<and> starts_with p w \<and> clex_contains lx w = Inr True})))"
  using clex_remove_prefix_lowercase [OF assms(1,3)] by blast

text \<open>
  The lexicon of \<open>prefix_test\<close> in \<open>lextest.c\<close>: removing the prefix \<open>re\<close> from the six
  words takes away \<open>reverse\<close>, \<open>return\<close> and \<open>read\<close>, which are the three members that
  begin with \<open>re\<close>, keeps \<open>ripple\<close>, and leaves the size 3.
\<close>

theorem clex_remove_prefix_correct_witness:
  "wf_lex (state_after [Add ''reverse'', Add ''return'', Add ''read'', Add ''apple'',
      Add ''application'', Add ''ripple''])
   \<and> ''re'' \<noteq> [] \<and> lowercase ''re''
   \<and> - (2 ^ 31) \<le> clex_wordcount (state_after [Add ''reverse'', Add ''return'', Add ''read'',
          Add ''apple'', Add ''application'', Add ''ripple''])
        - int (card {w. lowercase w \<and> starts_with ''re'' w
            \<and> clex_contains (state_after [Add ''reverse'', Add ''return'', Add ''read'',
                Add ''apple'', Add ''application'', Add ''ripple'']) w = Inr True})
   \<and> (\<exists>lx'. clex_remove_prefix (state_after [Add ''reverse'', Add ''return'', Add ''read'',
          Add ''apple'', Add ''application'', Add ''ripple'']) ''re'' = Inr (True, lx')
        \<and> clex_contains lx' ''reverse'' = Inr False
        \<and> clex_contains lx' ''return'' = Inr False
        \<and> clex_contains lx' ''read'' = Inr False
        \<and> clex_contains lx' ''ripple'' = Inr True
        \<and> clex_wordcount lx' = 3)
   \<and> card {w. lowercase w \<and> starts_with ''re'' w
        \<and> clex_contains (state_after [Add ''reverse'', Add ''return'', Add ''read'',
            Add ''apple'', Add ''application'', Add ''ripple'']) w = Inr True} = 3"
proof -
  let ?lx = "state_after [Add ''reverse'', Add ''return'', Add ''read'', Add ''apple'',
      Add ''application'', Add ''ripple'']"
  let ?N = "card {w. lowercase w \<and> starts_with ''re'' w \<and> clex_contains ?lx w = Inr True}"
  have wf: "wf_lex ?lx" by code_simp
  have ne: "''re'' \<noteq> []" by simp
  have low: "lowercase ''re''" by code_simp
  have found: "clex_contains_prefix ?lx ''re'' = Inr True" by code_simp
  have size: "clex_wordcount ?lx = 6" by code_simp
  have flagged: "count_words (root ?lx) = 6" by code_simp
  have ripple: "clex_contains ?lx ''ripple'' = Inr True" by code_simp
  have pre: "starts_with ''re'' (to_lower_case ''reverse'')"
    "starts_with ''re'' (to_lower_case ''return'')"
    "starts_with ''re'' (to_lower_case ''read'')"
    "\<not> starts_with ''re'' (to_lower_case ''ripple'')"
    by code_simp+
  have "?N \<le> 6" using card_members_with_prefix_le [OF wf, of "''re''"] flagged by simp
  then have range: "- (2 ^ 31) \<le> clex_wordcount ?lx - int ?N" using size by simp
  define lx1 where "lx1 = state_after [Add ''reverse'', Add ''return'', Add ''read'',
      Add ''apple'', Add ''application'', Add ''ripple'', RemovePrefix ''re'']"
  have lx1: "clex_remove_prefix ?lx ''re'' = Inr (True, lx1)" "clex_wordcount lx1 = 3"
    unfolding lx1_def by code_simp+
  from clex_remove_prefix_correct [OF wf ne low] found lx1(1) range
  have gone: "\<forall>w. starts_with ''re'' (to_lower_case w) \<longrightarrow> clex_contains lx1 w = Inr False"
    and kept: "\<forall>w. \<not> starts_with ''re'' (to_lower_case w) \<longrightarrow> clex_contains lx1 w = clex_contains ?lx w"
    and count: "clex_wordcount lx1 = clex_wordcount ?lx - int ?N"
    by auto
  from gone kept pre ripple have "clex_contains lx1 ''reverse'' = Inr False"
    "clex_contains lx1 ''return'' = Inr False" "clex_contains lx1 ''read'' = Inr False"
    "clex_contains lx1 ''ripple'' = Inr True"
    by simp_all
  moreover from count lx1(2) size have "?N = 3" by simp
  ultimately show ?thesis using lx1 wf ne low range by blast
qed

section \<open>Removal of the empty prefix\<close>

text \<open>
  Claim C10 says that on every live lexicon \<open>clex_remove_prefix\<close> with the empty string
  returns true and frees the whole tree. The function returns false when the slot it has
  walked to is \<open>NULL\<close>, and for the empty prefix that slot is the root slot: once the
  last word has been removed with \<open>clex_remove\<close> the root slot is \<open>NULL\<close>, and the call
  returns false and changes nothing.
\<close>

theorem clex_remove_prefix_empty_no_root:
  "run clex_create [Add ''a'', Remove ''a''] = Inr (state_after [Add ''a'', Remove ''a''])
   \<and> root (state_after [Add ''a'', Remove ''a'']) = None
   \<and> clex_remove_prefix (state_after [Add ''a'', Remove ''a'']) []
       = Inr (False, state_after [Add ''a'', Remove ''a''])"
  by code_simp

text \<open>
  Claim C10, amended: on a live lexicon whose root is present, \<open>clex_remove_prefix\<close> with
  the empty string returns true and frees the whole tree, the root included, so that the
  root slot is absent; afterwards \<open>clex_contains\<close> is false for every word, and the size
  is 0 when it was the number of members before the call. On a lexicon whose root is
  absent the call returns false and changes nothing.
\<close>

theorem clex_remove_prefix_empty:
  assumes "wf_lex lx"
  shows "(root lx = None \<longrightarrow> clex_remove_prefix lx [] = Inr (False, lx))
     \<and> (root lx \<noteq> None \<longrightarrow>
          (\<exists>lx'. clex_remove_prefix lx [] = Inr (True, lx')
             \<and> root lx' = None
             \<and> (\<forall>w. clex_contains lx' w = Inr False)
             \<and> (clex_wordcount lx = int (card {w. lowercase w \<and> clex_contains lx w = Inr True})
                \<longrightarrow> clex_wordcount lx' = 0)))"
proof (cases "root lx")
  case None
  then show ?thesis by (simp add: clex_remove_prefix_def to_lower_case_def)
next
  case (Some r)
  let ?N = "card {w. lowercase w \<and> clex_contains lx w = Inr True}"
  let ?lx' = "\<lparr>root = None, wordcount = delete_node_helper (Some r) (wordcount lx)\<rparr>"
  have res: "clex_remove_prefix lx [] = Inr (True, ?lx')"
    using Some by (simp add: clex_remove_prefix_def to_lower_case_def)
  have gone: "\<forall>w. clex_contains ?lx' w = Inr False"
    by (simp add: clex_contains_no_root)
  have N: "?N = count_words (Some r)"
    using card_members_count [OF assms] Some by simp
  have count: "clex_wordcount ?lx' = 0" if "clex_wordcount lx = int ?N"
  proof -
    from that have "wordcount lx = of_nat ?N"
      unfolding clex_wordcount_def by (rule of_nat_of_sint)
    then show ?thesis
      by (simp add: clex_wordcount_def delete_node_helper_count N)
  qed
  have "root ?lx' = None" by simp
  with res gone count have "\<exists>lx'. clex_remove_prefix lx [] = Inr (True, lx')
             \<and> root lx' = None
             \<and> (\<forall>w. clex_contains lx' w = Inr False)
             \<and> (clex_wordcount lx = int ?N \<longrightarrow> clex_wordcount lx' = 0)"
    by blast
  with Some show ?thesis by simp
qed

text \<open>
  In the lexicon of \<open>simple_test\<close>, whose size 3 is the number of its members, the call
  returns true and leaves the size 0; in the lexicon that lost its root it returns false.
\<close>

theorem clex_remove_prefix_empty_witness:
  "wf_lex (state_after [Add ''hello'', Add ''apple'', Add ''pear''])
   \<and> root (state_after [Add ''hello'', Add ''apple'', Add ''pear'']) \<noteq> None
   \<and> clex_wordcount (state_after [Add ''hello'', Add ''apple'', Add ''pear''])
       = int (card {w. lowercase w
           \<and> clex_contains (state_after [Add ''hello'', Add ''apple'', Add ''pear'']) w
               = Inr True})
   \<and> (\<exists>lx'. clex_remove_prefix (state_after [Add ''hello'', Add ''apple'', Add ''pear'']) []
          = Inr (True, lx')
        \<and> root lx' = None \<and> clex_contains lx' ''hello'' = Inr False
        \<and> clex_wordcount lx' = 0)
   \<and> wf_lex (state_after [Add ''a'', Remove ''a''])
   \<and> root (state_after [Add ''a'', Remove ''a'']) = None
   \<and> clex_remove_prefix (state_after [Add ''a'', Remove ''a'']) []
       = Inr (False, state_after [Add ''a'', Remove ''a''])"
proof -
  let ?lx = "state_after [Add ''hello'', Add ''apple'', Add ''pear'']"
  let ?e = "state_after [Add ''a'', Remove ''a'']"
  have wf: "wf_lex ?lx" and r: "root ?lx \<noteq> None" and size: "clex_wordcount ?lx = 3"
    and flagged: "count_words (root ?lx) = 3"
    by code_simp+
  have wfe: "wf_lex ?e" and re: "root ?e = None"
    by code_simp+
  have exact: "clex_wordcount ?lx = int (card {w. lowercase w \<and> clex_contains ?lx w = Inr True})"
    using card_members_count [OF wf] size flagged by simp
  from clex_remove_prefix_empty [OF wf] r exact
  have "\<exists>lx'. clex_remove_prefix ?lx [] = Inr (True, lx')
        \<and> root lx' = None \<and> clex_contains lx' ''hello'' = Inr False
        \<and> clex_wordcount lx' = 0"
    by blast
  moreover from clex_remove_prefix_empty [OF wfe] re
  have "clex_remove_prefix ?e [] = Inr (False, ?e)" by simp
  ultimately show ?thesis using wf r exact wfe re by blast
qed

section \<open>Invariant I1\<close>

text \<open>
  Claim C2 says that after any sequence of \<open>clex_add\<close>, \<open>clex_remove\<close> and
  \<open>clex_remove_prefix\<close> calls on a new lexicon no node reachable from the root has
  \<open>is_word = false\<close> and all child slots absent. \<open>clex_remove\<close> ends with
  \<open>scrub_empty_branches\<close> and keeps the invariant (\<open>I1_after_add_remove\<close> above);
  \<open>clex_remove_prefix\<close> frees the subtree of the prefix and does not scrub the path that
  led to it. After \<open>ab\<close> is added and the prefix \<open>ab\<close> removed, the lexicon holds no word,
  the node of \<open>a\<close> is left with no flag and no child, and \<open>clex_contains_prefix\<close> still
  returns true for \<open>a\<close>.
\<close>

theorem clex_remove_prefix_leaves_dangling_node:
  "run clex_create [Add ''ab'', RemovePrefix ''ab'']
       = Inr (state_after [Add ''ab'', RemovePrefix ''ab''])
   \<and> \<not> I1 (state_after [Add ''ab'', RemovePrefix ''ab''])
   \<and> count_words (root (state_after [Add ''ab'', RemovePrefix ''ab''])) = 0
   \<and> clex_wordcount (state_after [Add ''ab'', RemovePrefix ''ab'']) = 0
   \<and> clex_contains_prefix (state_after [Add ''ab'', RemovePrefix ''ab'']) ''a'' = Inr True"
  by code_simp

section \<open>The root\<close>

text \<open>
  Claim C6 says that after any sequence of calls the root node is present and its
  \<open>is_word\<close> flag is false. \<open>clex_remove\<close> scrubs from the root slot, so that removing the
  only word frees the root and leaves the slot \<open>NULL\<close>; \<open>clex_remove_prefix\<close> with the
  empty string frees the root as well; and \<open>clex_add\<close> with the empty string sets the
  flag of the root, after which the empty string is a member.
\<close>

theorem root_absent_or_flagged:
  "run clex_create [Add ''a'', Remove ''a''] = Inr (state_after [Add ''a'', Remove ''a''])
   \<and> root (state_after [Add ''a'', Remove ''a'']) = None
   \<and> run clex_create [Add ''a'', RemovePrefix []] = Inr (state_after [Add ''a'', RemovePrefix []])
   \<and> root (state_after [Add ''a'', RemovePrefix []]) = None
   \<and> run clex_create [Add []] = Inr (state_after [Add []])
   \<and> \<not> root_flag_clear (state_after [Add []])
   \<and> clex_contains (state_after [Add []]) [] = Inr True"
  by code_simp

text \<open>
  Claim C6, amended: after any sequence of \<open>clex_add\<close>, \<open>clex_remove\<close>,
  \<open>clex_remove_prefix\<close> and \<open>clex_clear\<close> calls on a new lexicon, all of which return and
  none of which adds the empty string, the \<open>is_word\<close> flag of the root is false whenever
  the root is present, and \<open>clex_contains\<close> is false for the empty string. The root is
  present when the sequence has no \<open>clex_remove\<close> and no \<open>clex_remove_prefix\<close> with the
  empty string in it. On the lexicon that the sequence ends in, with its root present, a
  \<open>clex_remove\<close> leaves the root absent exactly when it returns true, the node of the
  word has no child and no other word is a member, and a \<open>clex_remove_prefix\<close> leaves it
  absent exactly when its prefix is empty.
\<close>

theorem root_flag_and_presence:
  assumes "run clex_create ops = Inr lx" and "Add [] \<notin> set ops"
  shows "root_flag_clear lx \<and> clex_contains lx [] = Inr False
     \<and> ((\<forall>w. Remove w \<notin> set ops) \<and> RemovePrefix [] \<notin> set ops \<longrightarrow> root lx \<noteq> None)
     \<and> (\<forall>w removed lx'. root lx \<noteq> None \<and> clex_remove lx w = Inr (removed, lx') \<longrightarrow>
          (root lx' = None \<longleftrightarrow>
             removed \<and> (\<forall>a. clex_contains_prefix lx (w @ [a]) \<noteq> Inr True)
               \<and> (\<forall>v. clex_contains lx v = Inr True \<longrightarrow> to_lower_case v = to_lower_case w)))
     \<and> (\<forall>p removed lx'. root lx \<noteq> None \<and> clex_remove_prefix lx p = Inr (removed, lx') \<longrightarrow>
          (root lx' = None \<longleftrightarrow> p = []))"
proof -
  have step: "root_flag_clear lx2"
    if "root_flag_clear lx1" "x \<in> set ops" "apply_op lx1 x = Inr lx2" for lx1 x lx2
  proof (cases x)
    case (Add w)
    with that(2) assms(2) have "w \<noteq> []" by auto
    with that Add show ?thesis by (auto intro: flag_clex_add)
  next
    case (Remove w)
    with that show ?thesis
      by (auto split: sum.splits prod.splits intro: flag_clex_remove)
  next
    case (RemovePrefix p)
    with that show ?thesis
      by (auto split: sum.splits prod.splits intro: flag_clex_remove_prefix)
  next
    case Clear
    with that show ?thesis by (auto simp: flag_clex_clear)
  qed
  have flag: "root_flag_clear lx"
    using step flag_clex_create assms(1) by (rule run_invariant [where Inv = root_flag_clear])
  then have empty: "clex_contains lx [] = Inr False"
    by (cases "root lx")
       (simp_all add: root_flag_clear_def clex_contains_def clex_contains_helper_def
         to_lower_case_def)
  have present: "root lx \<noteq> None"
    if no: "(\<forall>w. Remove w \<notin> set ops) \<and> RemovePrefix [] \<notin> set ops"
  proof -
    let ?Inv = "\<lambda>lx. root lx \<noteq> None"
    have "?Inv lx2" if "?Inv lx1" "x \<in> set ops" "apply_op lx1 x = Inr lx2" for lx1 x lx2
    proof (cases x)
      case (Add w)
      with that show ?thesis by (auto dest: root_clex_add)
    next
      case (Remove w)
      with that(2) no show ?thesis by simp
    next
      case (RemovePrefix p)
      with that(2) no have "p \<noteq> []" by auto
      moreover from that(3) RemovePrefix obtain b where
        "clex_remove_prefix lx1 p = Inr (b, lx2)"
        by (auto split: sum.splits prod.splits)
      ultimately show ?thesis
        using that(1) clex_remove_prefix_frees_root [of lx1 p b lx2] by simp
    next
      case Clear
      with that show ?thesis by (auto simp: clex_clear_def)
    qed
    moreover have "?Inv clex_create" by (simp add: clex_create_def)
    ultimately show ?thesis using assms(1) by (rule run_invariant [where Inv = ?Inv])
  qed
  have wf: "wf_lex lx" using assms(1) by (rule wf_run)
  have rm: "root lx' = None \<longleftrightarrow>
       removed \<and> (\<forall>a. clex_contains_prefix lx (w @ [a]) \<noteq> Inr True)
         \<and> (\<forall>v. clex_contains lx v = Inr True \<longrightarrow> to_lower_case v = to_lower_case w)"
    if "root lx \<noteq> None \<and> clex_remove lx w = Inr (removed, lx')" for w removed lx'
    using that clex_remove_frees_root [OF wf, of w removed lx'] by blast
  have rp: "root lx' = None \<longleftrightarrow> p = []"
    if "root lx \<noteq> None \<and> clex_remove_prefix lx p = Inr (removed, lx')" for p removed lx'
    using that clex_remove_prefix_frees_root [of lx p removed lx'] by auto
  from flag empty present rm rp show ?thesis by blast
qed

text \<open>
  A sequence with a removal of a prefix that is not empty and with no other removal keeps
  the root. In the lexicon that holds just \<open>a\<close> the removal of \<open>a\<close> frees the root, and in
  the lexicon that holds \<open>a\<close> and \<open>ab\<close> it does not.
\<close>

theorem root_flag_and_presence_witness:
  "run clex_create [Add ''apple'', Add ''ripple'', RemovePrefix ''appl'', Clear, Add ''Read'']
     = Inr (state_after [Add ''apple'', Add ''ripple'', RemovePrefix ''appl'', Clear,
         Add ''Read''])
   \<and> root_flag_clear (state_after [Add ''apple'', Add ''ripple'', RemovePrefix ''appl'', Clear,
         Add ''Read''])
   \<and> clex_contains (state_after [Add ''apple'', Add ''ripple'', RemovePrefix ''appl'', Clear,
         Add ''Read'']) [] = Inr False
   \<and> root (state_after [Add ''apple'', Add ''ripple'', RemovePrefix ''appl'', Clear,
         Add ''Read'']) \<noteq> None
   \<and> run clex_create [Add ''a''] = Inr (state_after [Add ''a''])
   \<and> root (state_after [Add ''a'']) \<noteq> None
   \<and> clex_remove (state_after [Add ''a'']) ''a'' = Inr (True, state_after [Add ''a'', Remove ''a''])
   \<and> root (state_after [Add ''a'', Remove ''a'']) = None
   \<and> run clex_create [Add ''a'', Add ''ab''] = Inr (state_after [Add ''a'', Add ''ab''])
   \<and> clex_remove (state_after [Add ''a'', Add ''ab'']) ''a''
       = Inr (True, state_after [Add ''a'', Add ''ab'', Remove ''a''])
   \<and> clex_contains_prefix (state_after [Add ''a'', Add ''ab'']) (''a'' @ ''b'') = Inr True
   \<and> root (state_after [Add ''a'', Add ''ab'', Remove ''a'']) \<noteq> None"
proof -
  let ?ops = "[Add ''apple'', Add ''ripple'', RemovePrefix ''appl'', Clear, Add ''Read'']"
  have r: "run clex_create ?ops = Inr (state_after ?ops)" by code_simp
  have no_empty: "Add [] \<notin> set ?ops" by simp
  have no_rm: "(\<forall>w. Remove w \<notin> set ?ops) \<and> RemovePrefix [] \<notin> set ?ops" by simp
  from root_flag_and_presence [OF r no_empty] no_rm
  have 1: "root_flag_clear (state_after ?ops)" "clex_contains (state_after ?ops) [] = Inr False"
    "root (state_after ?ops) \<noteq> None"
    by blast+
  have a: "run clex_create [Add ''a''] = Inr (state_after [Add ''a''])"
    and ra: "root (state_after [Add ''a'']) \<noteq> None"
    and rma: "clex_remove (state_after [Add ''a'']) ''a''
       = Inr (True, state_after [Add ''a'', Remove ''a''])"
    and gone: "root (state_after [Add ''a'', Remove ''a'']) = None"
    by code_simp+
  have ab: "run clex_create [Add ''a'', Add ''ab''] = Inr (state_after [Add ''a'', Add ''ab''])"
    and rab: "root (state_after [Add ''a'', Add ''ab'']) \<noteq> None"
    and rmab: "clex_remove (state_after [Add ''a'', Add ''ab'']) ''a''
       = Inr (True, state_after [Add ''a'', Add ''ab'', Remove ''a''])"
    and child: "clex_contains_prefix (state_after [Add ''a'', Add ''ab'']) (''a'' @ ''b'') = Inr True"
    by code_simp+
  have "Add [] \<notin> set [Add ''a'', Add ''ab'']" by simp
  from root_flag_and_presence [OF ab this] rab rmab child
  have 2: "root (state_after [Add ''a'', Add ''ab'', Remove ''a'']) \<noteq> None"
    by blast
  from r 1 a ra rma gone ab rmab child 2 show ?thesis by simp
qed

end
